theory Spec2Isabelle
  imports Main
begin

section \<open>Python values used by the two programs\<close>

text \<open>
  A Python \<open>str\<close> is a sequence of Unicode code points, and \<open>len\<close> counts code points.
  The model therefore takes a string to be a list of code points (natural numbers below
  \<open>0x110000\<close>); the ellipsis \<open>U+2026\<close> is one element, as it is one character in Python.
  \<open>py\<close> turns an ASCII literal into such a list.
\<close>

type_synonym pystr = "nat list"

definition py :: "string \<Rightarrow> pystr" where
  "py s = map of_char s"

text \<open>Python integers are unbounded: \<open>int\<close>. \<open>str(i)\<close> is the decimal numeral.\<close>

fun digits :: "nat \<Rightarrow> pystr" where
  "digits n = (if n < 10 then [48 + n] else digits (n div 10) @ [48 + n mod 10])"

declare digits.simps [simp del]

definition str_int :: "int \<Rightarrow> pystr" where
  "str_int i = (if i < 0 then 45 # digits (nat (- i)) else digits (nat i))"

section \<open>Python string operations\<close>

text \<open>
  The characters \<open>str.split()\<close> and \<open>str.strip()\<close> treat as whitespace
  (\<open>str.isspace\<close>): the ASCII controls 9 to 13 and 28 to 31, the space, and the Unicode
  separators.
\<close>

definition is_space :: "nat \<Rightarrow> bool" where
  "is_space c \<longleftrightarrow>
     (9 \<le> c \<and> c \<le> 13) \<or> (28 \<le> c \<and> c \<le> 32) \<or> c = 133 \<or> c = 160 \<or> c = 5760
     \<or> (8192 \<le> c \<and> c \<le> 8202) \<or> c = 8232 \<or> c = 8233 \<or> c = 8239 \<or> c = 8287
     \<or> c = 12288"

text \<open>\<open>s.replace(a, b)\<close> for one-character \<open>a\<close> and \<open>b\<close>.\<close>

definition replace_char :: "nat \<Rightarrow> nat \<Rightarrow> pystr \<Rightarrow> pystr" where
  "replace_char a b s = map (\<lambda>c. if c = a then b else c) s"

text \<open>
  \<open>s.split()\<close> with no argument: the maximal runs of non-whitespace characters, in
  order. \<open>split_from cur s\<close> scans \<open>s\<close> with the word \<open>cur\<close> read so far.
\<close>

fun split_from :: "pystr \<Rightarrow> pystr \<Rightarrow> pystr list" where
  "split_from cur [] = (if cur = [] then [] else [cur])"
| "split_from cur (c # cs) =
     (if is_space c then (if cur = [] then split_from [] cs else cur # split_from [] cs)
      else split_from (cur @ [c]) cs)"

definition split_ws :: "pystr \<Rightarrow> pystr list" where
  "split_ws s = split_from [] s"

text \<open>\<open>s.strip()\<close>: whitespace is removed at both ends.\<close>

definition strip :: "pystr \<Rightarrow> pystr" where
  "strip s = rev (dropWhile is_space (rev (dropWhile is_space s)))"

text \<open>
  \<open>s.lower()\<close>. The ASCII capitals go to their small letters. Two characters outside
  ASCII have a lowercase form with an ASCII letter in it, and are mapped as Python maps
  them: the Kelvin sign \<open>U+212A\<close> to \<open>k\<close>, and \<open>U+0130\<close> to \<open>i\<close> followed by
  \<open>U+0307\<close>. Every other cased letter outside ASCII has a lowercase form outside ASCII
  and is left as it is here: the programs only compare lowercased input with ASCII
  words, which cannot tell the two apart.
\<close>

definition lower_char :: "nat \<Rightarrow> pystr" where
  "lower_char c =
     (if 65 \<le> c \<and> c \<le> 90 then [c + 32]
      else if c = 8490 then [107]
      else if c = 304 then [105, 775]
      else [c])"

definition lower :: "pystr \<Rightarrow> pystr" where
  "lower s = concat (map lower_char s)"

text \<open>\<open>k in s\<close> for strings: \<open>k\<close> occurs in \<open>s\<close> as a contiguous run.\<close>

fun contains :: "pystr \<Rightarrow> pystr \<Rightarrow> bool" where
  "contains k [] = (k = [])"
| "contains k (c # cs) = (take (length k) (c # cs) = k \<or> contains k cs)"

text \<open>
  \<open>xs[a:b]\<close>: each index counts from the end when negative and is clipped to the list.
\<close>

definition clip_index :: "int \<Rightarrow> nat \<Rightarrow> nat" where
  "clip_index i n = (if i < 0 then nat (max (i + int n) 0) else min (nat i) n)"

definition py_slice :: "int \<Rightarrow> int \<Rightarrow> 'a list \<Rightarrow> 'a list" where
  "py_slice a b xs =
     (let lo = clip_index a (length xs); hi = clip_index b (length xs)
      in take (hi - lo) (drop lo xs))"

text \<open>\<open>s.rjust(w)\<close> and \<open>s.ljust(w)\<close> pad with spaces.\<close>

definition rjust :: "nat \<Rightarrow> pystr \<Rightarrow> pystr" where
  "rjust w s = replicate (w - length s) 32 @ s"

definition ljust :: "nat \<Rightarrow> pystr \<Rightarrow> pystr" where
  "ljust w s = s @ replicate (w - length s) 32"

text \<open>\<open>sep.join(xs)\<close>.\<close>

fun join :: "pystr \<Rightarrow> pystr list \<Rightarrow> pystr" where
  "join sep [] = []"
| "join sep [x] = x"
| "join sep (x # y # ys) = x @ sep @ join sep (y # ys)"

text \<open>
  \<open>s[:k]\<close>: a negative \<open>k\<close> counts from the end of the string, and the stop index is
  clipped to the string.
\<close>

definition slice_to :: "int \<Rightarrow> 'a list \<Rightarrow> 'a list" where
  "slice_to k s = (if 0 \<le> k then take (nat k) s else take (length s - nat (- k)) s)"

text \<open>
  \<open>s.encode("utf-8", errors="strict")\<close> raises \<open>UnicodeEncodeError\<close> exactly on a lone
  surrogate (\<open>U+D800\<close> to \<open>U+DFFF\<close>). The handler encodes with \<open>backslashreplace\<close>, which
  writes such a code point as a backslash, \<open>u\<close> and four lowercase hexadecimal digits, and
  decodes the bytes again.
\<close>

definition is_surrogate :: "nat \<Rightarrow> bool" where
  "is_surrogate c \<longleftrightarrow> 55296 \<le> c \<and> c \<le> 57343"

definition hex_digit :: "nat \<Rightarrow> nat" where
  "hex_digit d = (if d < 10 then 48 + d else 87 + d)"

definition backslashreplace :: "nat \<Rightarrow> pystr" where
  "backslashreplace c =
     (if is_surrogate c
      then [92, 117, hex_digit (c div 4096 mod 16), hex_digit (c div 256 mod 16),
            hex_digit (c div 16 mod 16), hex_digit (c mod 16)]
      else [c])"

definition encode_fallback :: "pystr \<Rightarrow> pystr" where
  "encode_fallback s =
     (if list_ex is_surrogate s then concat (map backslashreplace s) else s)"

section \<open>Cells\<close>

text \<open>
  A cell of a result row as the drivers return it: \<open>None\<close>, a \<open>str\<close>, an \<open>int\<close> or a
  \<open>bytes\<close> value. (The drivers also return decimal, float and temporal values; like an
  integer, each prints as a numeral or a timestamp.) \<open>py_str\<close> is \<open>str(val)\<close>; for
  \<open>bytes\<close> it is the literal \<open>b'...'\<close> with its escapes.
\<close>

datatype cell = CNone | CStr pystr | CInt int | CBytes "char list"

definition repr_byte :: "nat \<Rightarrow> nat \<Rightarrow> pystr" where
  "repr_byte q c =
     (if c = q \<or> c = 92 then [92, c]
      else if c = 9 then [92, 116]
      else if c = 10 then [92, 110]
      else if c = 13 then [92, 114]
      else if c < 32 \<or> 127 \<le> c then [92, 120, hex_digit (c div 16 mod 16), hex_digit (c mod 16)]
      else [c])"

definition bytes_repr :: "char list \<Rightarrow> pystr" where
  "bytes_repr b =
     (let bs = map of_char b;
          q = (if 39 \<in> set bs \<and> 34 \<notin> set bs then 34 else 39)
      in [98, q] @ concat (map (repr_byte q) bs) @ [q])"

fun py_str :: "cell \<Rightarrow> pystr" where
  "py_str CNone = py ''None''"
| "py_str (CStr s) = s"
| "py_str (CInt i) = str_int i"
| "py_str (CBytes b) = bytes_repr b"

section \<open>Cell Sanitizer\<close>

text \<open>
  \<open>clean\<close>, the closure of \<open>ob_admin_cli.print_table\<close>, with the \<open>max_width\<close> it closes
  over as its first argument. \<open>clean_text\<close> is the value of \<open>s\<close> when the function reaches
  its length test; \<open>sanitize\<close> is the sanitizer without a length bound, that is \<open>clean\<close>
  up to that test. The ellipsis is the one character \<open>U+2026\<close>.
\<close>

definition ellipsis :: nat where
  "ellipsis = 8230"

definition clean_text :: "pystr \<Rightarrow> pystr" where
  "clean_text s0 =
     (let s = replace_char 9 32 (replace_char 10 32 (replace_char 13 32 s0));
          s = join [32] (split_ws s);
          s = encode_fallback s
      in s)"

definition sanitize :: "cell \<Rightarrow> pystr" where
  "sanitize val = (if val = CNone then [] else clean_text (py_str val))"

definition clean :: "int \<Rightarrow> cell \<Rightarrow> pystr" where
  "clean max_width val =
     (if val = CNone then []
      else (let s = clean_text (py_str val)
            in if int (length s) > max_width
               then slice_to (max_width - 1) s @ [ellipsis]
               else s))"

section \<open>Column Width Allocator\<close>

text \<open>
  \<open>ob_admin_cli.adaptive_cell_width\<close>. The terminal query
  \<open>os.get_terminal_size().columns\<close> is the argument \<open>term\<close>: \<open>None\<close> when the call
  raises (the \<open>except\<close> branch takes 120 columns).
\<close>

definition adaptive_cell_width :: "int option \<Rightarrow> pystr list \<Rightarrow> int \<Rightarrow> int \<Rightarrow> int" where
  "adaptive_cell_width term headers min_w max_w =
     (let cols = (case term of Some c \<Rightarrow> c | None \<Rightarrow> 120);
          n = max 1 (int (length headers));
          usable = max 40 (cols - 16);
          cell = max min_w (min max_w (usable div n))
      in cell)"

text \<open>The defaults of the signature: \<open>min_w = 24\<close>, \<open>max_w = 80\<close>.\<close>

definition adaptive_cell_width_default :: "int option \<Rightarrow> pystr list \<Rightarrow> int" where
  "adaptive_cell_width_default term headers = adaptive_cell_width term headers 24 80"

text \<open>
  The width computation of \<open>ob_gemini_v1.print_horizontal\<close> (step 2 of the function).
  \<open>shutil.get_terminal_size().columns\<close> is \<open>term\<close>, \<open>None\<close> when it raises \<open>OSError\<close>
  (80 columns then). \<open>//\<close> is floor division, which is \<open>div\<close> on \<open>int\<close>; with no header
  the division raises \<open>ZeroDivisionError\<close>.
\<close>

datatype py_error =
    ZeroDivisionError
  | IndexError
  | ValueError
  | UnicodeEncodeError
  | OSError
  | EOFError
  | InterfaceError
  | DatabaseError pystr
  | OtherError pystr

definition max_col_width :: "int option \<Rightarrow> nat \<Rightarrow> py_error + int" where
  "max_col_width term num_columns =
     (let terminal_width = (case term of Some c \<Rightarrow> c | None \<Rightarrow> 80);
          available_width = terminal_width - (int num_columns * 3) - 1
      in if num_columns = 0 then Inl ZeroDivisionError
         else Inr (min 40 (max 10 (available_width div int num_columns))))"

definition max_col_widths_list :: "int option \<Rightarrow> nat \<Rightarrow> py_error + int list" where
  "max_col_widths_list term num_columns =
     (case max_col_width term num_columns of
        Inl e \<Rightarrow> Inl e
      | Inr w \<Rightarrow> Inr (replicate num_columns w))"

section \<open>Result presentation of \<open>ob_gemini_v1\<close>\<close>

text \<open>
  What a statement gives back through the cursor: \<open>description\<close> is the column names
  (\<open>[i[0] for i in cursor.description]\<close>), \<open>None\<close> for a statement with no result set;
  a row is the tuple of its cells.
\<close>

record cursor_result =
  description :: "pystr list option"
  fetched :: "cell list list"
  rowcount :: int

text \<open>
  What the program prints. A line of text the program builds itself is \<open>Line\<close>; its
  fixed messages are named; \<open>Table\<close> is the text the formatting backend returned.
\<close>

datatype out =
    Line pystr
  | RowBanner nat
  | RowsReturned nat
  | Table pystr
  | TabulateError py_error
  | Degrading
  | EmptySQL
  | Executing pystr
  | EmptyResult
  | TooWide
  | HasNewlines
  | AffectedRows int
  | SqlError py_error
  | ProgramError py_error

datatype layout = Horizontal | Vertical

subsection \<open>Layout Decision Policy\<close>

text \<open>
  The decision of \<open>execute_and_print_query\<close>. \<open>cell_has_newline\<close> is the test
  \<open>isinstance(cell, str) and '\n' in cell\<close>. The scan is written with the number of
  cells it has tested beside its answer: \<open>any\<close> stops at the first cell that passes, and
  \<open>break\<close> leaves the loop over the rows there.
\<close>

definition MAX_HORIZONTAL_COLS :: nat where
  "MAX_HORIZONTAL_COLS = 10"

definition is_too_wide :: "pystr list \<Rightarrow> bool" where
  "is_too_wide headers \<longleftrightarrow> length headers > MAX_HORIZONTAL_COLS"

fun cell_has_newline :: "cell \<Rightarrow> bool" where
  "cell_has_newline (CStr s) = (10 \<in> set s)"
| "cell_has_newline _ = False"

fun any_newline :: "cell list \<Rightarrow> bool \<times> nat" where
  "any_newline [] = (False, 0)"
| "any_newline (c # cs) =
     (if cell_has_newline c then (True, 1)
      else (case any_newline cs of (b, n) \<Rightarrow> (b, Suc n)))"

fun scan_rows :: "cell list list \<Rightarrow> bool \<times> nat" where
  "scan_rows [] = (False, 0)"
| "scan_rows (row # rows) =
     (case any_newline row of
        (True, n) \<Rightarrow> (True, n)
      | (False, n) \<Rightarrow> (case scan_rows rows of (b, m) \<Rightarrow> (b, n + m)))"

definition has_newlines :: "pystr list \<Rightarrow> cell list list \<Rightarrow> bool \<times> nat" where
  "has_newlines headers results =
     (if \<not> is_too_wide headers then scan_rows results else (False, 0))"

definition layout_decision :: "pystr list \<Rightarrow> cell list list \<Rightarrow> layout" where
  "layout_decision headers results =
     (if is_too_wide headers \<or> fst (has_newlines headers results) then Vertical
      else Horizontal)"

definition cells_inspected :: "pystr list \<Rightarrow> cell list list \<Rightarrow> nat" where
  "cells_inspected headers results = snd (has_newlines headers results)"

subsection \<open>Vertical rendering\<close>

text \<open>
  \<open>print_vertical\<close>. A record is the banner with the 1-based row number and one line per
  header, \<open>row[j]\<close> formatted by \<open>str\<close>; a row shorter than the headers raises
  \<open>IndexError\<close> at the missing cell, after the lines printed so far. The result is the
  output and the exception that ended it, if any.
\<close>

definition max_header_len :: "pystr list \<Rightarrow> nat" where
  "max_header_len headers = foldr max (map length headers) 0"

fun print_fields :: "nat \<Rightarrow> pystr list \<Rightarrow> cell list \<Rightarrow> out list \<times> py_error option" where
  "print_fields w [] row = ([], None)"
| "print_fields w (h # hs) [] = ([], Some IndexError)"
| "print_fields w (h # hs) (c # cs) =
     (case print_fields w hs cs of
        (ls, e) \<Rightarrow> (Line (rjust w h @ py '' : '' @ py_str c) # ls, e))"

fun print_records :: "nat \<Rightarrow> pystr list \<Rightarrow> cell list list \<Rightarrow> out list \<times> py_error option" where
  "print_records i headers [] = ([], None)"
| "print_records i headers (row # rows) =
     (case print_fields (max_header_len headers) headers row of
        (ls, Some e) \<Rightarrow> (RowBanner (i + 1) # ls, Some e)
      | (ls, None) \<Rightarrow>
          (case print_records (i + 1) headers rows of
             (ls', e) \<Rightarrow> (RowBanner (i + 1) # ls @ ls', e)))"

definition print_vertical :: "cell list list \<Rightarrow> pystr list \<Rightarrow> out list \<times> py_error option" where
  "print_vertical results headers =
     (case print_records 0 headers results of
        (ls, Some e) \<Rightarrow> (Line [] # ls, Some e)
      | (ls, None) \<Rightarrow> (Line [] # ls @ [RowsReturned (length results)], None))"

subsection \<open>Horizontal rendering and its fallback\<close>

text \<open>
  \<open>print_horizontal\<close>. Step 1 replaces line feeds, carriage returns and tabs in \<open>str\<close>
  and \<open>bytes\<close> cells (a \<open>bytes\<close> cell becomes its \<open>str\<close> form). Step 2 is
  \<open>max_col_widths_list\<close>; a \<open>ZeroDivisionError\<close> there is outside the \<open>try\<close> and leaves
  the function. Step 3 calls the formatting backend \<open>tabulate\<close>, an argument of the model:
  it returns the table text or raises. The \<open>except Exception\<close> branch prints the error
  and calls \<open>print_vertical\<close> on the results and headers the function was given.
\<close>

type_synonym tabulate_grid = "cell list list \<Rightarrow> pystr list \<Rightarrow> int list \<Rightarrow> py_error + pystr"

fun clean_item :: "cell \<Rightarrow> cell" where
  "clean_item (CStr s) = CStr (replace_char 9 32 (replace_char 13 32 (replace_char 10 32 s)))"
| "clean_item (CBytes b) =
     CStr (replace_char 9 32 (replace_char 13 32 (replace_char 10 32 (py_str (CBytes b)))))"
| "clean_item c = c"

definition cleaned_results :: "cell list list \<Rightarrow> cell list list" where
  "cleaned_results results = map (map clean_item) results"

definition print_horizontal ::
  "tabulate_grid \<Rightarrow> int option \<Rightarrow> cell list list \<Rightarrow> pystr list \<Rightarrow> out list \<times> py_error option" where
  "print_horizontal tabulate term results headers =
     (case max_col_widths_list term (length headers) of
        Inl e \<Rightarrow> ([], Some e)
      | Inr widths \<Rightarrow>
          (case tabulate (cleaned_results results) headers widths of
             Inr text \<Rightarrow> ([Table text, RowsReturned (length results)], None)
           | Inl e \<Rightarrow>
               (case print_vertical results headers of
                  (ls, e') \<Rightarrow> ([TabulateError e, Degrading] @ ls, e'))))"

subsection \<open>\<open>execute_and_print_query\<close>\<close>

text \<open>
  The connection is the function \<open>conn\<close>: \<open>cursor.execute\<close> followed by the reads of the
  cursor either raises or gives a \<open>cursor_result\<close>; creating the cursor, before the
  statement is echoed, is taken to succeed. \<open>mysql.connector.Error\<close> covers the
  driver's errors; any other exception reaches \<open>except Exception\<close>. Either way the
  function returns, so its result is only what it printed.
\<close>

fun is_driver_error :: "py_error \<Rightarrow> bool" where
  "is_driver_error InterfaceError = True"
| "is_driver_error (DatabaseError m) = True"
| "is_driver_error _ = False"

definition report :: "py_error \<Rightarrow> out" where
  "report e = (if is_driver_error e then SqlError e else ProgramError e)"

definition finish :: "out list \<times> py_error option \<Rightarrow> out list" where
  "finish r = (case r of (ls, None) \<Rightarrow> ls | (ls, Some e) \<Rightarrow> ls @ [report e])"

definition present ::
  "tabulate_grid \<Rightarrow> int option \<Rightarrow> pystr list \<Rightarrow> cell list list \<Rightarrow> out list" where
  "present tabulate term headers results =
     (let too_wide = is_too_wide headers;
          newlines = fst (has_newlines headers results)
      in if too_wide \<or> newlines
         then (if too_wide then [TooWide] else []) @ (if newlines then [HasNewlines] else [])
              @ finish (print_vertical results headers)
         else finish (print_horizontal tabulate term results headers))"

definition execute_and_print_query ::
  "tabulate_grid \<Rightarrow> int option \<Rightarrow> (pystr \<Rightarrow> py_error + cursor_result) \<Rightarrow> pystr \<Rightarrow> out list" where
  "execute_and_print_query tabulate term conn sql_query =
     (if sql_query = [] \<or> strip sql_query = [] then [EmptySQL]
      else Executing sql_query #
        (case conn sql_query of
           Inl e \<Rightarrow> [report e]
         | Inr cur \<Rightarrow>
             (case description cur of
                None \<Rightarrow> [AffectedRows (rowcount cur)]
              | Some headers \<Rightarrow>
                  if headers = [] then [AffectedRows (rowcount cur)]
                  else if fetched cur = [] then [EmptyResult]
                  else present tabulate term headers (fetched cur))))"

section \<open>Result presentation of \<open>ob_admin_cli\<close>\<close>

text \<open>
  A row is a \<open>dict\<close> from column name to cell, as \<open>DictCursor\<close> returns it: the list of
  its items in insertion order, with distinct keys. \<open>r.get(h)\<close> is \<open>None\<close> for a
  missing key.
\<close>

type_synonym row = "(pystr \<times> cell) list"

definition dict_keys :: "row \<Rightarrow> pystr list" where
  "dict_keys r = map fst r"

definition dict_get :: "row \<Rightarrow> pystr \<Rightarrow> cell" where
  "dict_get r h = (case map_of r h of Some v \<Rightarrow> v | None \<Rightarrow> CNone)"

text \<open>
  What the program prints, by message; \<open>Showing a b t\<close> is the line
  \<open>start + 1 - end / total\<close> above a page. Prompts are not part of the output.
\<close>

datatype aout =
    NoResult
  | TableText pystr
  | TextLine pystr
  | ClearScreen
  | Showing int int nat
  | PageMenu
  | LastPage
  | FirstPage
  | InvalidCommand
  | NoDataToSave
  | Saved pystr
  | SaveFailed py_error
  | Timing nat
  | Cancelled
  | ExecFailed py_error

text \<open>
  What the program reads from its surroundings: the terminal width (\<open>None\<close> when the query
  raises), the formatting backend (\<open>None\<close> when \<open>tabulate\<close> is not installed; otherwise
  the function from the cell matrix and the headers to the table text, which may raise),
  the file name \<open>time.strftime\<close> builds, and which paths \<open>open(path, "w")\<close> accepts.
\<close>

record env =
  terminal :: "int option"
  have_tabulate :: "(pystr list list \<Rightarrow> pystr list \<Rightarrow> py_error + pystr) option"
  default_name :: pystr
  can_open :: "pystr \<Rightarrow> bool"

text \<open>
  What the program changes: the files it writes (as text, the encoding marker
  \<open>U+FEFF\<close> included) and the statements it has handed to \<open>cursor.execute\<close>.
\<close>

record world =
  files :: "pystr \<Rightarrow> pystr option"
  executed :: "pystr list"

text \<open>
  The result of a function that prints, reads lines of input and may raise: its
  output, the input left, the world, and the exception that left it, if any.
\<close>

type_synonym outcome = "aout list \<times> pystr list \<times> world \<times> py_error option"

subsection \<open>\<open>print_table\<close>\<close>

definition rows_ll :: "int \<Rightarrow> pystr list \<Rightarrow> row list \<Rightarrow> pystr list list" where
  "rows_ll max_width headers rows =
     map (\<lambda>r. map (\<lambda>h. clean max_width (dict_get r h)) headers) rows"

text \<open>The plain-text table printed when \<open>tabulate\<close> is not installed.\<close>

definition col_w :: "pystr list \<Rightarrow> pystr list list \<Rightarrow> nat list" where
  "col_w headers ll =
     map (\<lambda>i. foldr max (map (\<lambda>row. length (row ! i)) ll) (length (headers ! i)))
       [0 ..< length headers]"

definition rule_line :: "nat list \<Rightarrow> pystr" where
  "rule_line ws = [43] @ join [43] (map (\<lambda>w. replicate (w + 2) 45) ws) @ [43]"

definition text_row :: "nat list \<Rightarrow> pystr list \<Rightarrow> pystr" where
  "text_row ws cells =
     py ''| '' @ join (py '' | '') (map (\<lambda>i. ljust (ws ! i) (cells ! i)) [0 ..< length ws])
     @ py '' |''"

definition text_table :: "pystr list \<Rightarrow> pystr list list \<Rightarrow> pystr list" where
  "text_table headers ll =
     (let ws = col_w headers ll
      in [rule_line ws, text_row ws headers, rule_line ws]
         @ map (text_row ws) ll @ [rule_line ws])"

definition print_table :: "env \<Rightarrow> row list \<Rightarrow> int option \<Rightarrow> aout list \<times> py_error option" where
  "print_table env rows max_width =
     (case rows of
        [] \<Rightarrow> ([NoResult], None)
      | r0 # _ \<Rightarrow>
          (let headers = dict_keys r0;
               mw = (case max_width of
                       None \<Rightarrow> adaptive_cell_width (terminal env) headers 24 80
                     | Some w \<Rightarrow> w);
               ll = rows_ll mw headers rows
           in case have_tabulate env of
                Some tabulate \<Rightarrow>
                  (case tabulate ll headers of
                     Inr text \<Rightarrow> ([TableText text], None)
                   | Inl e \<Rightarrow> ([], Some e))
              | None \<Rightarrow> (map TextLine (text_table headers ll), None)))"

subsection \<open>Export Writer: \<open>save_csv\<close>\<close>

text \<open>
  \<open>csv.writer\<close> with the default dialect: fields separated by commas, a field holding a
  comma, a double quote, a carriage return or a line feed is put in double quotes with
  its double quotes doubled, a record of one empty field is written as two double
  quotes, and each record ends with carriage return and line feed.
\<close>

definition csv_special :: "nat \<Rightarrow> bool" where
  "csv_special c \<longleftrightarrow> c = 44 \<or> c = 34 \<or> c = 13 \<or> c = 10"

definition csv_quote :: "pystr \<Rightarrow> pystr" where
  "csv_quote f = 34 # concat (map (\<lambda>c. if c = 34 then [34, 34] else [c]) f) @ [34]"

definition csv_field :: "pystr \<Rightarrow> pystr" where
  "csv_field f = (if list_ex csv_special f then csv_quote f else f)"

definition csv_line :: "pystr list \<Rightarrow> pystr" where
  "csv_line record =
     (if record = [[]] then [34, 34] else join [44] (map csv_field record)) @ [13, 10]"

text \<open>
  \<open>DictWriter.writerow\<close>: a key outside the field names raises \<open>ValueError\<close>; a missing
  key is written as the empty string; \<open>None\<close> is written as the empty field, a \<open>str\<close> as
  it is and any other value through \<open>str\<close>. \<open>save_csv\<close> has replaced \<open>None\<close> by the empty
  string before.
\<close>

definition none_to_empty :: "cell \<Rightarrow> cell" where
  "none_to_empty v = (if v = CNone then CStr [] else v)"

definition field_text :: "cell \<Rightarrow> pystr" where
  "field_text v = (if v = CNone then [] else py_str v)"

definition dict_to_list :: "pystr list \<Rightarrow> row \<Rightarrow> py_error + cell list" where
  "dict_to_list fieldnames rowdict =
     (if list_ex (\<lambda>k. k \<notin> set fieldnames) (dict_keys rowdict) then Inl ValueError
      else Inr (map (\<lambda>k. case map_of rowdict k of Some v \<Rightarrow> v | None \<Rightarrow> CStr []) fieldnames))"

text \<open>
  The file is opened with \<open>utf-8-sig\<close>: the marker \<open>U+FEFF\<close> goes first, and a record
  with a lone surrogate cannot be encoded, which raises at that record. The records
  written before stay in the file.
\<close>

definition BOM :: nat where
  "BOM = 65279"

fun write_rows :: "pystr list \<Rightarrow> row list \<Rightarrow> pystr \<Rightarrow> pystr \<times> py_error option" where
  "write_rows headers [] acc = (acc, None)"
| "write_rows headers (r # rs) acc =
     (case dict_to_list headers (map (\<lambda>(k, v). (k, none_to_empty v)) r) of
        Inl e \<Rightarrow> (acc, Some e)
      | Inr vals \<Rightarrow>
          (let line = csv_line (map field_text vals)
           in if list_ex is_surrogate line then (acc, Some UnicodeEncodeError)
              else write_rows headers rs (acc @ line)))"

definition write_csv :: "pystr list \<Rightarrow> row list \<Rightarrow> pystr \<times> py_error option" where
  "write_csv headers rows =
     (let line = csv_line headers
      in if list_ex is_surrogate line then ([], Some UnicodeEncodeError)
         else write_rows headers rows (BOM # line))"

definition prompt_with_default :: "pystr \<Rightarrow> pystr list \<Rightarrow> py_error + (pystr \<times> pystr list)" where
  "prompt_with_default dflt inputs =
     (case inputs of
        [] \<Rightarrow> Inl EOFError
      | l # rest \<Rightarrow> Inr (if strip l = [] then dflt else strip l, rest))"

definition save_csv :: "env \<Rightarrow> row list \<Rightarrow> pystr list \<Rightarrow> world \<Rightarrow> outcome" where
  "save_csv env rows inputs w =
     (case rows of
        [] \<Rightarrow> ([NoDataToSave], inputs, w, None)
      | r0 # _ \<Rightarrow>
          (case prompt_with_default (default_name env) inputs of
             Inl e \<Rightarrow> ([], inputs, w, Some e)
           | Inr (path, rest) \<Rightarrow>
               (let headers = dict_keys r0
                in if \<not> can_open env path then ([SaveFailed OSError], rest, w, None)
                   else (case write_csv headers rows of
                           (content, None) \<Rightarrow>
                             ([Saved path], rest, w\<lparr>files := (files w)(path \<mapsto> content)\<rparr>, None)
                         | (content, Some e) \<Rightarrow>
                             ([SaveFailed e], rest, w\<lparr>files := (files w)(path \<mapsto> content)\<rparr>,
                              None)))))"

subsection \<open>Pagination Controller: \<open>paginate\<close>\<close>

text \<open>
  One pass of the \<open>while True\<close> loop shows the page of the state \<open>page\<close> and reads one
  command. \<open>page_start\<close>, \<open>page_end\<close> and \<open>page_rows\<close> are \<open>start\<close>, \<open>end\<close> and
  \<open>rows[start:end]\<close>. The input is a finite list of lines; \<open>input()\<close> on the empty list
  raises \<open>EOFError\<close>, so the loop ends on every input: with \<open>q\<close>, or with an exception.
\<close>

definition page_start :: "int \<Rightarrow> int \<Rightarrow> int" where
  "page_start page_size page = page * page_size"

definition page_end :: "row list \<Rightarrow> int \<Rightarrow> int \<Rightarrow> int" where
  "page_end rows page_size page = min (page_start page_size page + page_size) (int (length rows))"

definition page_rows :: "row list \<Rightarrow> int \<Rightarrow> int \<Rightarrow> row list" where
  "page_rows rows page_size page =
     py_slice (page_start page_size page) (page_end rows page_size page) rows"

definition show_page :: "env \<Rightarrow> row list \<Rightarrow> int \<Rightarrow> int \<Rightarrow> aout list \<times> py_error option" where
  "show_page env rows page_size page =
     (case print_table env (page_rows rows page_size page) None of
        (ls, e) \<Rightarrow>
          ([ClearScreen,
            Showing (page_start page_size page + 1) (page_end rows page_size page) (length rows)]
           @ ls, e))"

definition prepend :: "aout list \<Rightarrow> outcome \<Rightarrow> outcome" where
  "prepend ls r = (case r of (ls', rest, w, e) \<Rightarrow> (ls @ ls', rest, w, e))"

lemma save_csv_rest:
  "save_csv env rows inputs w = (ls, rest, w', e) \<Longrightarrow> length rest \<le> length inputs"
  by (auto simp: save_csv_def prompt_with_default_def Let_def
      split: list.splits sum.splits prod.splits option.splits if_splits)

function paginate_loop :: "env \<Rightarrow> row list \<Rightarrow> int \<Rightarrow> int \<Rightarrow> pystr list \<Rightarrow> world \<Rightarrow> outcome" where
  "paginate_loop env rows page_size page inputs w =
     (case show_page env rows page_size page of
        (ls, Some e) \<Rightarrow> (ls, inputs, w, Some e)
      | (ls, None) \<Rightarrow>
          (case inputs of
             [] \<Rightarrow> (ls @ [PageMenu], [], w, Some EOFError)
           | l # rest \<Rightarrow>
               (let cmd = lower (strip l)
                in if cmd = py ''n'' then
                     (if page_end rows page_size page \<ge> int (length rows)
                      then prepend (ls @ [PageMenu, LastPage])
                             (paginate_loop env rows page_size page rest w)
                      else prepend (ls @ [PageMenu])
                             (paginate_loop env rows page_size (page + 1) rest w))
                   else if cmd = py ''p'' then
                     (if page = 0
                      then prepend (ls @ [PageMenu, FirstPage])
                             (paginate_loop env rows page_size page rest w)
                      else prepend (ls @ [PageMenu])
                             (paginate_loop env rows page_size (page - 1) rest w))
                   else if cmd = py ''s'' then
                     (case save_csv env rows rest w of
                        (ls', rest', w', Some e) \<Rightarrow> (ls @ [PageMenu] @ ls', rest', w', Some e)
                      | (ls', rest', w', None) \<Rightarrow>
                          prepend (ls @ [PageMenu] @ ls')
                            (paginate_loop env rows page_size page rest' w'))
                   else if cmd = py ''q'' then (ls @ [PageMenu], rest, w, None)
                   else prepend (ls @ [PageMenu, InvalidCommand])
                          (paginate_loop env rows page_size page rest w))))"
  by pat_completeness auto
termination
  by (relation "measure (\<lambda>(env, rows, page_size, page, inputs, w). length inputs)")
    (auto dest: save_csv_rest [OF sym] simp: less_Suc_eq_le)

declare paginate_loop.simps [simp del]

definition paginate :: "env \<Rightarrow> row list \<Rightarrow> int \<Rightarrow> pystr list \<Rightarrow> world \<Rightarrow> outcome" where
  "paginate env rows page_size inputs w =
     (if rows = [] then ([NoResult], inputs, w, None)
      else paginate_loop env rows page_size 0 inputs w)"

subsection \<open>\<open>run_query\<close>\<close>

text \<open>
  The connection is the function \<open>conn\<close>: \<open>cursor.execute(sql)\<close> raises or leaves a
  cursor, whose \<open>fetchall()\<close> raises or returns the rows. The statement counts as
  executed once it is handed to \<open>execute\<close>. The elapsed time the function prints is not
  modelled; the statement length it prints is.
\<close>

record cursor =
  fetchall :: "py_error + row list"
  cur_rowcount :: int

definition run_query ::
  "(pystr \<Rightarrow> py_error + cursor) \<Rightarrow> pystr \<Rightarrow> world \<Rightarrow> aout list \<times> world \<times> (py_error + row list)" where
  "run_query conn sql w =
     (let w' = w\<lparr>executed := executed w @ [sql]\<rparr>
      in case conn sql of
           Inl e \<Rightarrow> ([], w', Inl e)
         | Inr cur \<Rightarrow>
             (case fetchall cur of
                Inr rows \<Rightarrow> ([Timing (length sql)], w', Inr rows)
              | Inl e \<Rightarrow>
                  if e = InterfaceError
                  then ([Timing (length sql)], w',
                        Inr [[(py ''affected_rows'', CInt (cur_rowcount cur))]])
                  else ([], w', Inl e)))"

subsection \<open>The dangerous-statement gate and the execution step of \<open>main\<close>\<close>

text \<open>
  The part of the menu loop of \<open>main\<close> that follows the choice of a statement: the
  confirmation gate, then \<open>run_query\<close> and \<open>paginate\<close> under \<open>except Exception\<close>, whose
  handler prints the failure and waits for a line (\<open>pause\<close> swallows the end of input).
  When the step returns, the loop shows the menu again; an \<open>EOFError\<close> at the
  confirmation prompt is outside the \<open>try\<close> and leaves \<open>main\<close>.
\<close>

definition DANGER :: "pystr list" where
  "DANGER = [py '' drop '', py '' truncate '', py '' delete '', py '' alter '',
             py '' shutdown '', py '' kill '']"

definition is_dangerous :: "pystr \<Rightarrow> bool" where
  "is_dangerous sql = (let low = [32] @ lower sql @ [32] in list_ex (\<lambda>k. contains k low) DANGER)"

definition pause :: "pystr list \<Rightarrow> pystr list" where
  "pause inputs = (case inputs of [] \<Rightarrow> [] | l # rest \<Rightarrow> rest)"

definition execute :: "env \<Rightarrow> (pystr \<Rightarrow> py_error + cursor) \<Rightarrow> pystr \<Rightarrow> pystr list \<Rightarrow> world \<Rightarrow> outcome" where
  "execute env conn sql inputs w =
     (case run_query conn sql w of
        (ls, w', Inl e) \<Rightarrow> (ls @ [ExecFailed e], pause inputs, w', None)
      | (ls, w', Inr rows) \<Rightarrow>
          (case paginate env rows 20 inputs w' of
             (ls', rest, w'', Some e) \<Rightarrow> (ls @ ls' @ [ExecFailed e], pause rest, w'', None)
           | (ls', rest, w'', None) \<Rightarrow> (ls @ ls', rest, w'', None)))"

definition dispatch :: "env \<Rightarrow> (pystr \<Rightarrow> py_error + cursor) \<Rightarrow> pystr \<Rightarrow> pystr list \<Rightarrow> world \<Rightarrow> outcome" where
  "dispatch env conn sql inputs w =
     (if is_dangerous sql then
        (case inputs of
           [] \<Rightarrow> ([], [], w, Some EOFError)
         | l # rest \<Rightarrow>
             (let ok = lower (strip l)
              in if ok \<noteq> py ''yes'' then ([Cancelled], rest, w, None)
                 else execute env conn sql rest w))
      else execute env conn sql inputs w)"

section \<open>Reading an export back\<close>

text \<open>
  The program only writes exports. To state what reading one back gives, this is the
  reader of the same format: \<open>csv.reader\<close> with the default dialect, as a machine over
  the characters of the text. A record ends at a carriage return, a line feed or both;
  a field in double quotes runs to the closing quote, two double quotes inside it
  standing for one; an empty line is an empty record. \<open>read_export\<close> reads a file
  opened with \<open>utf-8-sig\<close>, which drops the leading marker.
\<close>

datatype rstate = StartRecord | AfterCR | StartField | InField | InQuoted | QuoteInQuoted

type_synonym reader = "rstate \<times> pystr \<times> pystr list \<times> pystr list list"

definition end_record :: "nat \<Rightarrow> pystr list \<Rightarrow> pystr list list \<Rightarrow> reader" where
  "end_record c record out = (if c = 13 then AfterCR else StartRecord, [], [], out @ [record])"

definition on_start_field :: "pystr list \<Rightarrow> pystr list list \<Rightarrow> nat \<Rightarrow> reader" where
  "on_start_field r out c =
     (if c = 13 \<or> c = 10 then end_record c (r @ [[]]) out
      else if c = 34 then (InQuoted, [], r, out)
      else if c = 44 then (StartField, [], r @ [[]], out)
      else (InField, [c], r, out))"

definition on_start_record :: "pystr list list \<Rightarrow> nat \<Rightarrow> reader" where
  "on_start_record out c =
     (if c = 13 \<or> c = 10 then end_record c [] out else on_start_field [] out c)"

fun csv_step :: "reader \<Rightarrow> nat \<Rightarrow> reader" where
  "csv_step (StartRecord, f, r, out) c = on_start_record out c"
| "csv_step (AfterCR, f, r, out) c =
     (if c = 10 then (StartRecord, [], [], out) else on_start_record out c)"
| "csv_step (StartField, f, r, out) c = on_start_field r out c"
| "csv_step (InField, f, r, out) c =
     (if c = 13 \<or> c = 10 then end_record c (r @ [f]) out
      else if c = 44 then (StartField, [], r @ [f], out)
      else (InField, f @ [c], r, out))"
| "csv_step (InQuoted, f, r, out) c =
     (if c = 34 then (QuoteInQuoted, f, r, out) else (InQuoted, f @ [c], r, out))"
| "csv_step (QuoteInQuoted, f, r, out) c =
     (if c = 34 then (InQuoted, f @ [34], r, out)
      else if c = 44 then (StartField, [], r @ [f], out)
      else if c = 13 \<or> c = 10 then end_record c (r @ [f]) out
      else (InField, f @ [c], r, out))"

fun csv_finish :: "reader \<Rightarrow> pystr list list" where
  "csv_finish (StartRecord, f, r, out) = out"
| "csv_finish (AfterCR, f, r, out) = out"
| "csv_finish (st, f, r, out) = out @ [r @ [f]]"

definition csv_reader :: "pystr \<Rightarrow> pystr list list" where
  "csv_reader text = csv_finish (foldl csv_step (StartRecord, [], [], []) text)"

definition read_export :: "pystr \<Rightarrow> pystr list list" where
  "read_export content =
     (case content of
        [] \<Rightarrow> []
      | c # cs \<Rightarrow> if c = BOM then csv_reader cs else csv_reader (c # cs))"

section \<open>Properties of the Column Width Allocator\<close>

lemma adaptive_cell_width_bounds:
  "min_w \<le> max_w \<Longrightarrow>
     min_w \<le> adaptive_cell_width term headers min_w max_w \<and>
     adaptive_cell_width term headers min_w max_w \<le> max_w"
  by (simp add: adaptive_cell_width_def Let_def)

lemma max_col_width_bounds:
  "0 < n \<Longrightarrow> \<exists>cw. max_col_width term n = Inr cw \<and> 10 \<le> cw \<and> cw \<le> 40"
  by (simp add: max_col_width_def Let_def)

text \<open>
  Claim C3. For every header count \<open>n \<ge> 1\<close> and every terminal width (also a failed
  terminal query, and widths below the reserved overhead, even negative ones), both
  allocators return a width between their bounds: 24 and 80 for \<open>adaptive_cell_width\<close>
  with its defaults (and \<open>min_w\<close>, \<open>max_w\<close> for any \<open>min_w \<le> max_w\<close>), 10 and 40 for
  \<open>print_horizontal\<close>. The width is one number for the whole table: the list handed to
  the formatting backend holds the same width at each of the \<open>n\<close> columns.
\<close>

theorem column_width_allocator_bounds:
  assumes "1 \<le> length headers"
  shows "24 \<le> adaptive_cell_width_default term headers
       \<and> adaptive_cell_width_default term headers \<le> 80
       \<and> (\<forall>min_w max_w. min_w \<le> max_w \<longrightarrow>
             min_w \<le> adaptive_cell_width term headers min_w max_w
           \<and> adaptive_cell_width term headers min_w max_w \<le> max_w)
       \<and> (\<exists>cw. max_col_width term (length headers) = Inr cw
             \<and> 10 \<le> cw \<and> cw \<le> 40
             \<and> max_col_widths_list term (length headers) = Inr (replicate (length headers) cw)
             \<and> (\<forall>i < length headers. replicate (length headers) cw ! i = cw))"
proof -
  have a: "24 \<le> adaptive_cell_width_default term headers
       \<and> adaptive_cell_width_default term headers \<le> 80"
    using adaptive_cell_width_bounds [of 24 80 "term" headers]
    by (simp add: adaptive_cell_width_default_def)
  have b: "\<forall>min_w max_w. min_w \<le> max_w \<longrightarrow>
             min_w \<le> adaptive_cell_width term headers min_w max_w
           \<and> adaptive_cell_width term headers min_w max_w \<le> max_w"
    using adaptive_cell_width_bounds by blast
  from assms have "0 < length headers" by (cases headers) simp_all
  from max_col_width_bounds [OF this, of "term"]
  obtain cw where cw: "max_col_width term (length headers) = Inr cw"
      "10 \<le> cw" "cw \<le> 40"
    by blast
  have c: "max_col_widths_list term (length headers) = Inr (replicate (length headers) cw)"
    by (simp add: max_col_widths_list_def cw)
  show ?thesis using a b cw c by auto
qed

theorem column_width_allocator_bounds_witness:
  "adaptive_cell_width_default (Some 80) [py ''id'', py ''name'', py ''zone''] = 24
   \<and> max_col_width (Some 80) 3 = Inr 23
   \<and> max_col_widths_list (Some 80) 3 = Inr [23, 23, 23]
   \<and> max_col_width (Some 5) 3 = Inr 10"
  using column_width_allocator_bounds [of "[py ''id'', py ''name'', py ''zone'']" "Some 80"]
  by (simp add: adaptive_cell_width_default_def adaptive_cell_width_def
      max_col_width_def max_col_widths_list_def Let_def numeral_3_eq_3)
section \<open>Properties of the Cell Sanitizer\<close>

text \<open>
  The words \<open>split\<close> returns are non-empty and free of whitespace; a text is in
  \<open>clean_form\<close> when it is such words joined by single spaces, with no surrogate left.
\<close>


definition tokens_ok :: "pystr list \<Rightarrow> bool" where
  "tokens_ok ws \<longleftrightarrow> (\<forall>w \<in> set ws. w \<noteq> [] \<and> (\<forall>c \<in> set w. \<not> is_space c))"

lemma tokens_ok_Nil [simp]: "tokens_ok []"
  by (simp add: tokens_ok_def)

lemma tokens_ok_Cons [simp]:
  "tokens_ok (w # ws) \<longleftrightarrow> w \<noteq> [] \<and> (\<forall>c \<in> set w. \<not> is_space c) \<and> tokens_ok ws"
  by (auto simp: tokens_ok_def)

lemma split_from_append:
  "\<forall>c \<in> set w. \<not> is_space c \<Longrightarrow> split_from cur (w @ rest) = split_from (cur @ w) rest"
  by (induction w arbitrary: cur) auto

lemma split_from_tokens:
  "\<forall>c \<in> set cur. \<not> is_space c \<Longrightarrow> tokens_ok (split_from cur s)"
proof (induction s arbitrary: cur)
  case Nil
  then show ?case by simp
next
  case (Cons a s)
  show ?case
  proof (cases "is_space a")
    case True
    have "tokens_ok (split_from [] s)" using Cons.IH [of "[]"] by simp
    then show ?thesis using True Cons.prems by simp
  next
    case False
    have "tokens_ok (split_from (cur @ [a]) s)"
      using Cons.IH [of "cur @ [a]"] Cons.prems False by simp
    then show ?thesis using False by simp
  qed
qed

lemma split_ws_tokens: "tokens_ok (split_ws s)"
  by (simp add: split_ws_def split_from_tokens)

lemma is_space_32: "is_space 32" by (simp add: is_space_def)

lemma split_join:
  "tokens_ok ws \<Longrightarrow> split_from [] (join [32] ws) = ws"
proof (induction ws)
  case Nil
  then show ?case by simp
next
  case (Cons x ws)
  then have x: "\<forall>c \<in> set x. \<not> is_space c" "x \<noteq> []" and r: "tokens_ok ws"
    by auto
  show ?case
  proof (cases ws)
    case Nil
    then show ?thesis using split_from_append [OF x(1), of "[]" "[]"] x(2) by simp
  next
    case (Cons y ys)
    have "split_from [] (x @ 32 # join [32] ws) = split_from x (32 # join [32] ws)"
      using split_from_append [OF x(1), of "[]"] by simp
    also have "\<dots> = x # split_from [] (join [32] ws)"
      using x(2) by (simp add: is_space_32)
    finally show ?thesis using Cons.IH r Cons by simp
  qed
qed


definition esc :: "pystr \<Rightarrow> pystr" where
  "esc s = concat (map backslashreplace s)"

definition clean_form :: "pystr \<Rightarrow> bool" where
  "clean_form s \<longleftrightarrow>
     (\<exists>ws. tokens_ok ws \<and> (\<forall>w \<in> set ws. \<forall>c \<in> set w. \<not> is_surrogate c) \<and> s = join [32] ws)"

lemma set_join: "c \<in> set (join [32] ws) \<Longrightarrow> c = 32 \<or> (\<exists>w \<in> set ws. c \<in> set w)"
  by (induction "[32::nat]" ws rule: join.induct) auto

lemma replace_char_id: "a \<notin> set s \<Longrightarrow> replace_char a b s = s"
  by (induction s) (auto simp: replace_char_def)

lemma set_replace_char: "a \<noteq> b \<Longrightarrow> a \<notin> set (replace_char a b s)"
  by (induction s) (auto simp: replace_char_def)

lemma esc_id: "\<forall>c \<in> set s. \<not> is_surrogate c \<Longrightarrow> esc s = s"
  by (induction s) (auto simp: esc_def backslashreplace_def)

lemma encode_fallback_esc: "encode_fallback s = esc s"
proof (cases "list_ex is_surrogate s")
  case True
  then show ?thesis by (simp add: encode_fallback_def esc_def)
next
  case False
  then have "\<forall>c \<in> set s. \<not> is_surrogate c" by (simp add: list_ex_iff)
  then show ?thesis using False by (simp add: encode_fallback_def esc_id)
qed

lemma esc_append: "esc (a @ b) = esc a @ esc b"
  by (simp add: esc_def)

lemma esc_32: "esc [32] = [32]"
  by (simp add: esc_def backslashreplace_def is_surrogate_def)

lemma esc_Nil: "esc [] = []"
  by (simp add: esc_def)

lemma esc_Cons_32: "esc (32 # s) = 32 # esc s"
  using esc_append [of "[32]" s] by (simp add: esc_32)

lemma esc_join: "esc (join [32] ws) = join [32] (map esc ws)"
  by (induction "[32::nat]" ws rule: join.induct) (simp_all add: esc_append esc_Cons_32 esc_Nil)

lemma hex_digit_plain: "d < 16 \<Longrightarrow> \<not> is_space (hex_digit d) \<and> \<not> is_surrogate (hex_digit d)"
  by (simp add: hex_digit_def is_space_def is_surrogate_def)

lemma backslashreplace_plain:
  assumes "\<not> is_space c" "x \<in> set (backslashreplace c)"
  shows "\<not> is_space x \<and> \<not> is_surrogate x"
proof (cases "is_surrogate c")
  case False
  then show ?thesis using assms by (simp add: backslashreplace_def)
next
  case True
  have h: "\<And>d. d < 16 \<Longrightarrow> x = hex_digit d \<Longrightarrow> ?thesis"
    using hex_digit_plain by blast
  have "x = 92 \<or> x = 117 \<or> x = hex_digit (c div 4096 mod 16) \<or> x = hex_digit (c div 256 mod 16)
      \<or> x = hex_digit (c div 16 mod 16) \<or> x = hex_digit (c mod 16)"
    using True assms(2) by (auto simp: backslashreplace_def)
  moreover have "\<not> is_space 92 \<and> \<not> is_surrogate 92" "\<not> is_space 117 \<and> \<not> is_surrogate 117"
    by (simp_all add: is_space_def is_surrogate_def)
  ultimately show ?thesis using h [of "c div 4096 mod 16"] h [of "c div 256 mod 16"]
      h [of "c div 16 mod 16"] h [of "c mod 16"] by auto
qed

lemma backslashreplace_nonempty: "backslashreplace c \<noteq> []"
  by (simp add: backslashreplace_def)

lemma esc_token:
  assumes "w \<noteq> []" "\<forall>c \<in> set w. \<not> is_space c"
  shows "esc w \<noteq> [] \<and> (\<forall>x \<in> set (esc w). \<not> is_space x \<and> \<not> is_surrogate x)"
proof
  from assms(1) obtain a r where "w = a # r" by (cases w) auto
  then show "esc w \<noteq> []" by (simp add: esc_def backslashreplace_nonempty)
  show "\<forall>x \<in> set (esc w). \<not> is_space x \<and> \<not> is_surrogate x"
    using assms(2) backslashreplace_plain by (auto simp: esc_def)
qed

lemma clean_form_esc_join:
  assumes "tokens_ok ws"
  shows "clean_form (esc (join [32] ws))"
proof -
  have "tokens_ok (map esc ws)"
    using assms esc_token by (auto simp: tokens_ok_def)
  moreover have "\<forall>w \<in> set (map esc ws). \<forall>c \<in> set w. \<not> is_surrogate c"
    using assms esc_token by (auto simp: tokens_ok_def)
  ultimately show ?thesis unfolding clean_form_def esc_join by blast
qed

lemma clean_text_form: "clean_form (clean_text s)"
  by (simp add: clean_text_def encode_fallback_esc clean_form_esc_join split_ws_tokens)

lemma clean_text_fixed:
  assumes "clean_form s"
  shows "clean_text s = s"
proof -
  from assms obtain ws where ws: "tokens_ok ws" "\<forall>w \<in> set ws. \<forall>c \<in> set w. \<not> is_surrogate c"
    and s: "s = join [32] ws" by (auto simp: clean_form_def)
  have sp: "is_space 9" "is_space 10" "is_space 13" by (simp_all add: is_space_def)
  have free: "9 \<notin> set s" "10 \<notin> set s" "13 \<notin> set s"
    using set_join [of _ ws] ws(1) sp unfolding s tokens_ok_def by fastforce+
  have r: "replace_char 9 32 (replace_char 10 32 (replace_char 13 32 s)) = s"
    using free by (simp add: replace_char_id)
  have "\<not> is_surrogate 32" by (simp add: is_surrogate_def)
  then have "\<forall>c \<in> set s. \<not> is_surrogate c"
    using set_join [of _ ws] ws(2) unfolding s by fastforce
  then have e: "esc s = s" by (rule esc_id)
  have j: "join [32] (split_ws s) = s"
    unfolding s split_ws_def using split_join [OF ws(1)] by simp
  show ?thesis by (simp add: clean_text_def r j encode_fallback_esc e)
qed

lemma join_last_nonempty: "ws \<noteq> [] \<Longrightarrow> last ws \<noteq> [] \<Longrightarrow> join sep ws \<noteq> []"
  by (induction sep ws rule: join.induct) auto

lemma take_join_tokens:
  assumes "tokens_ok ws" "\<forall>w \<in> set ws. \<forall>c \<in> set w. \<not> is_surrogate c"
    "\<not> is_space e" "\<not> is_surrogate e"
  shows "\<exists>vs. vs \<noteq> [] \<and> tokens_ok vs \<and> (\<forall>w \<in> set vs. \<forall>c \<in> set w. \<not> is_surrogate c)
     \<and> take k (join [32] ws) @ [e] = join [32] vs"
  using assms(1,2)
proof (induction ws arbitrary: k)
  case Nil
  have "tokens_ok [[e]]" using assms(3) by simp
  then show ?case using assms(4) by (intro exI [of _ "[[e]]"]) simp
next
  case (Cons x ws)
  then have x: "x \<noteq> []" "\<forall>c \<in> set x. \<not> is_space c" "\<forall>c \<in> set x. \<not> is_surrogate c"
    and r: "tokens_ok ws" "\<forall>w \<in> set ws. \<forall>c \<in> set w. \<not> is_surrogate c" by auto
  show ?case
  proof (cases "k \<le> length x \<or> ws = []")
    case True
    then have "take k (join [32] (x # ws)) = take k x"
      by (cases ws) auto
    moreover have "tokens_ok [take k x @ [e]]"
      using x(2) assms(3) by (auto dest: in_set_takeD)
    moreover have "\<forall>c \<in> set (take k x @ [e]). \<not> is_surrogate c"
      using x(3) assms(4) by (auto dest: in_set_takeD)
    ultimately show ?thesis by (intro exI [of _ "[take k x @ [e]]"]) simp
  next
    case False
    then obtain y ys where ws: "ws = y # ys" and k: "length x < k" by (cases ws) auto
    from Cons.IH [OF r, of "k - length x - 1"] obtain vs where vs: "vs \<noteq> []" "tokens_ok vs"
      "\<forall>w \<in> set vs. \<forall>c \<in> set w. \<not> is_surrogate c"
      "take (k - length x - 1) (join [32] ws) @ [e] = join [32] vs" by blast
    from vs(1) obtain v vs' where v: "vs = v # vs'" by (cases vs) auto
    have "take k (join [32] (x # ws)) @ [e] = x @ 32 # (take (k - length x - 1) (join [32] ws) @ [e])"
      using k ws by (simp add: take_Cons')
    also have "\<dots> = join [32] (x # vs)" using vs(4) v by simp
    finally have "take k (join [32] (x # ws)) @ [e] = join [32] (x # vs)" .
    moreover have "tokens_ok (x # vs)" using x vs(2) by simp
    moreover have "\<forall>w \<in> set (x # vs). \<forall>c \<in> set w. \<not> is_surrogate c" using x(3) vs(3) by simp
    ultimately show ?thesis by (intro exI [of _ "x # vs"]) simp
  qed
qed

lemma ellipsis_plain: "\<not> is_space ellipsis \<and> \<not> is_surrogate ellipsis"
  by (simp add: ellipsis_def is_space_def is_surrogate_def)

lemma clean_form_take: "clean_form s \<Longrightarrow> clean_form (take k s @ [ellipsis])"
  unfolding clean_form_def using take_join_tokens [of _ ellipsis k] ellipsis_plain by metis


lemma clean_unfold:
  "val \<noteq> CNone \<Longrightarrow> clean L val =
     (if int (length (sanitize val)) > L then slice_to (L - 1) (sanitize val) @ [ellipsis]
      else sanitize val)"
  by (simp add: clean_def sanitize_def Let_def)

lemma clean_None: "clean L CNone = []" "sanitize CNone = []"
  by (simp_all add: clean_def sanitize_def)

lemma sanitize_form: "clean_form (sanitize x)"
proof (cases "x = CNone")
  case True
  have "clean_form (join [32] [])" unfolding clean_form_def by (intro exI [of _ "[]"]) simp
  then show ?thesis using True by (simp add: sanitize_def)
next
  case False
  then show ?thesis by (simp add: sanitize_def clean_text_form)
qed

lemma clean_shape:
  "clean L x = sanitize x \<or> (int (length (sanitize x)) > L \<and> (\<exists>k. clean L x = take k (sanitize x) @ [ellipsis]))"
proof (cases "x = CNone")
  case True
  then show ?thesis by (simp add: clean_None)
next
  case False
  then show ?thesis by (auto simp: clean_unfold slice_to_def)
qed

lemma clean_form_clean: "clean_form (clean L x)"
  using clean_shape [of L x] sanitize_form [of x] clean_form_take by auto

lemma sanitize_CStr_fixed: "clean_form s \<Longrightarrow> sanitize (CStr s) = s"
  by (simp add: sanitize_def clean_text_fixed)

text \<open>
  The length bound of \<open>clean\<close> is the \<open>max_width\<close> of \<open>print_table\<close>, which \<open>paginate\<close>
  leaves to \<open>adaptive_cell_width\<close>: it is at least 24.
\<close>

lemma print_table_bound: "24 \<le> adaptive_cell_width term headers 24 80"
  by (simp add: adaptive_cell_width_def Let_def)

text \<open>
  Claim C4. For every cell and every length bound \<open>L\<close> (a length, so that the prefix of
  length \<open>L - 1\<close> exists: \<open>L \<ge> 1\<close>): when the text the sanitizer produces without a
  bound is longer than \<open>L\<close>, \<open>clean\<close> returns exactly \<open>L\<close> characters, the first
  \<open>L - 1\<close> characters of that text followed by one ellipsis; when it is at most \<open>L\<close>
  long it is returned unchanged.
\<close>

theorem clean_truncation_law:
  assumes "1 \<le> L"
  shows "(int (length (sanitize x)) > L \<longrightarrow>
            int (length (clean L x)) = L
          \<and> clean L x = take (nat (L - 1)) (sanitize x) @ [ellipsis])
       \<and> (int (length (sanitize x)) \<le> L \<longrightarrow> clean L x = sanitize x)"
proof (cases "x = CNone")
  case True
  then show ?thesis using assms by (simp add: clean_None)
next
  case False
  then show ?thesis using assms by (auto simp: clean_unfold slice_to_def)
qed

lemma sanitize_abcdef: "sanitize (CStr (py ''ab  cd ef'')) = [97, 98, 32, 99, 100, 32, 101, 102]"
  by (simp add: sanitize_def clean_text_def py_def split_ws_def is_space_def replace_char_def
      encode_fallback_def is_surrogate_def)

theorem clean_truncation_law_witness:
  "int (length (sanitize (CStr (py ''ab  cd ef'')))) > 4
   \<and> clean 4 (CStr (py ''ab  cd ef'')) = [97, 98, 32, 8230]
   \<and> int (length (clean 4 (CStr (py ''ab  cd ef'')))) = 4"
  using clean_truncation_law [of 4 "CStr (py ''ab  cd ef'')"]
  by (simp add: sanitize_abcdef ellipsis_def)

text \<open>
  Claim C8. For every cell and every length bound \<open>L \<ge> 0\<close>, sanitizing the output of
  the sanitizer (as a text cell, with the same bound) returns it unchanged; so does the
  sanitizer without a bound.
\<close>

theorem clean_idempotent:
  assumes "0 \<le> L"
  shows "clean L (CStr (clean L x)) = clean L x
       \<and> sanitize (CStr (sanitize x)) = sanitize x"
proof
  show "sanitize (CStr (sanitize x)) = sanitize x"
    using sanitize_form by (rule sanitize_CStr_fixed)
  let ?r = "clean L x"
  have fx: "sanitize (CStr ?r) = ?r"
    using clean_form_clean by (rule sanitize_CStr_fixed)
  have u: "clean L (CStr ?r) =
      (if int (length ?r) > L then slice_to (L - 1) ?r @ [ellipsis] else ?r)"
    using clean_unfold [of "CStr ?r" L] by (simp add: fx)
  from clean_shape [of L x] show "clean L (CStr ?r) = ?r"
  proof
    assume same: "?r = sanitize x"
    show ?thesis
    proof (cases "x = CNone")
      case True
      then show ?thesis using assms u by (simp add: clean_None)
    next
      case False
      then show ?thesis using u same clean_unfold [OF False, of L]
        by (auto split: if_splits)
    qed
  next
    assume "int (length (sanitize x)) > L \<and> (\<exists>k. ?r = take k (sanitize x) @ [ellipsis])"
    then have long: "int (length (sanitize x)) > L" by simp
    then have ne: "x \<noteq> CNone" using assms by (auto simp: clean_None)
    have r: "?r = slice_to (L - 1) (sanitize x) @ [ellipsis]"
      using clean_unfold [OF ne, of L] long by simp
    show ?thesis
    proof (cases "L = 0")
      case False
      then have "int (length ?r) = L" using assms long r by (auto simp: slice_to_def)
      then show ?thesis using u by simp
    next
      case True
      have len: "length ?r = length (sanitize x)" using long True r by (auto simp: slice_to_def)
      have "slice_to (L - 1) ?r = slice_to (L - 1) (sanitize x)"
        using True r long by (simp add: slice_to_def)
      then show ?thesis using u r len long by simp
    qed
  qed
qed

theorem clean_idempotent_witness:
  "clean 4 (CStr (clean 4 (CStr (py ''ab  cd ef'')))) = [97, 98, 32, 8230]
   \<and> clean 4 (CStr (py ''ab  cd ef'')) = [97, 98, 32, 8230]"
  using clean_idempotent [of 4 "CStr (py ''ab  cd ef'')"]
  by (simp add: clean_unfold sanitize_abcdef ellipsis_def slice_to_def)
section \<open>Properties of the Layout Decision Policy\<close>

lemma digits_no_lf: "10 \<notin> set (digits n)"
proof (induction n rule: digits.induct)
  case (1 n)
  show ?case
  proof (cases "n < 10")
    case True
    then show ?thesis by (subst digits.simps) simp
  next
    case False
    then show ?thesis using 1 by (subst digits.simps) simp
  qed
qed

lemma str_int_no_lf: "10 \<notin> set (str_int i)"
  by (simp add: str_int_def digits_no_lf)

lemma hex_digit_no_lf: "hex_digit d \<noteq> 10"
  by (simp add: hex_digit_def)

lemma repr_byte_no_lf: "q \<noteq> 10 \<Longrightarrow> 10 \<notin> set (repr_byte q c)"
  by (auto simp: repr_byte_def hex_digit_no_lf [symmetric])

lemma bytes_repr_no_lf: "10 \<notin> set (bytes_repr b)"
  by (auto simp: bytes_repr_def Let_def repr_byte_no_lf)

lemma py_None: "py ''None'' = [78, 111, 110, 101]"
  by (simp add: py_def)

lemma text_form_newline: "10 \<in> set (py_str c) \<longleftrightarrow> cell_has_newline c"
  by (cases c) (simp_all add: py_None str_int_no_lf bytes_repr_no_lf)

lemma any_newline_scan:
  "any_newline row =
     (if \<exists>c \<in> set row. cell_has_newline c
      then (True, Suc (length (takeWhile (\<lambda>c. \<not> cell_has_newline c) row)))
      else (False, length row))"
  by (induction row) auto

lemma scan_rows_scan:
  "scan_rows rows =
     (if \<exists>c \<in> set (concat rows). cell_has_newline c
      then (True, Suc (length (takeWhile (\<lambda>c. \<not> cell_has_newline c) (concat rows))))
      else (False, length (concat rows)))"
proof (induction rows)
  case Nil
  then show ?case by simp
next
  case (Cons row rows)
  show ?case
  proof (cases "\<exists>c \<in> set row. cell_has_newline c")
    case True
    then show ?thesis by (auto simp: any_newline_scan takeWhile_append1)
  next
    case False
    then have tw: "takeWhile (\<lambda>c. \<not> cell_has_newline c) (row @ concat rows)
        = row @ takeWhile (\<lambda>c. \<not> cell_has_newline c) (concat rows)"
      by (simp add: takeWhile_append2)
    show ?thesis using False Cons.IH by (auto simp: any_newline_scan tw)
  qed
qed

text \<open>
  The place of the first cell, in row order, whose text form \<open>str(cell)\<close> holds a line
  feed, counted from 1: what a scan that stops at the first match has read.
\<close>

definition first_newline_cell :: "cell list list \<Rightarrow> nat" where
  "first_newline_cell results =
     Suc (length (takeWhile (\<lambda>c. 10 \<notin> set (py_str c)) (concat results)))"

lemma first_newline_cell_eq:
  "first_newline_cell results = Suc (length (takeWhile (\<lambda>c. \<not> cell_has_newline c) (concat results)))"
  by (simp add: first_newline_cell_def text_form_newline)

text \<open>
  Claim C2. More than 10 headers: Vertical, whatever the cells hold (no cell is read).
  At most 10 headers and a line feed in the text form of some cell: Vertical, and the
  scan has read the cells up to the first such cell and no further. At most 10 headers
  and no line feed in any cell: Horizontal. \<open>execute_and_print_query\<close> takes the
  decision once, before it renders: what it prints for a non-empty result set is the
  rendering the decision names.
\<close>

theorem layout_decision_policy:
  "(length headers > 10 \<longrightarrow>
       layout_decision headers results = Vertical \<and> cells_inspected headers results = 0)
 \<and> (length headers \<le> 10 \<and> (\<exists>row \<in> set results. \<exists>c \<in> set row. 10 \<in> set (py_str c)) \<longrightarrow>
       layout_decision headers results = Vertical
     \<and> cells_inspected headers results = first_newline_cell results)
 \<and> (length headers \<le> 10 \<and> (\<forall>row \<in> set results. \<forall>c \<in> set row. 10 \<notin> set (py_str c)) \<longrightarrow>
       layout_decision headers results = Horizontal)
 \<and> present tabulate term headers results =
       (case layout_decision headers results of
          Vertical \<Rightarrow>
            (if is_too_wide headers then [TooWide] else [HasNewlines])
            @ finish (print_vertical results headers)
        | Horizontal \<Rightarrow> finish (print_horizontal tabulate term results headers))"
proof -
  have wide: "length headers > 10 \<longrightarrow>
       layout_decision headers results = Vertical \<and> cells_inspected headers results = 0"
    by (simp add: layout_decision_def cells_inspected_def has_newlines_def is_too_wide_def
        MAX_HORIZONTAL_COLS_def)
  have nl: "length headers \<le> 10 \<and> (\<exists>row \<in> set results. \<exists>c \<in> set row. 10 \<in> set (py_str c)) \<longrightarrow>
       layout_decision headers results = Vertical
     \<and> cells_inspected headers results = first_newline_cell results"
  proof
    assume a: "length headers \<le> 10 \<and> (\<exists>row \<in> set results. \<exists>c \<in> set row. 10 \<in> set (py_str c))"
    then obtain row c where "row \<in> set results" "c \<in> set row" "cell_has_newline c"
      by (auto simp: text_form_newline)
    then have "\<exists>c \<in> set (concat results). cell_has_newline c"
      by auto
    then have "scan_rows results = (True, first_newline_cell results)"
      by (simp add: scan_rows_scan first_newline_cell_eq)
    then show "layout_decision headers results = Vertical
       \<and> cells_inspected headers results = first_newline_cell results"
      using a by (simp add: layout_decision_def cells_inspected_def has_newlines_def
          is_too_wide_def MAX_HORIZONTAL_COLS_def)
  qed
  have plain: "length headers \<le> 10 \<and> (\<forall>row \<in> set results. \<forall>c \<in> set row. 10 \<notin> set (py_str c)) \<longrightarrow>
       layout_decision headers results = Horizontal"
  proof
    assume a: "length headers \<le> 10 \<and> (\<forall>row \<in> set results. \<forall>c \<in> set row. 10 \<notin> set (py_str c))"
    then have "\<not> (\<exists>c \<in> set (concat results). cell_has_newline c)"
      by (auto simp: text_form_newline)
    then have "fst (scan_rows results) = False"
      by (simp add: scan_rows_scan)
    then show "layout_decision headers results = Horizontal"
      using a by (simp add: layout_decision_def has_newlines_def is_too_wide_def
          MAX_HORIZONTAL_COLS_def)
  qed
  have route: "present tabulate term headers results =
       (case layout_decision headers results of
          Vertical \<Rightarrow>
            (if is_too_wide headers then [TooWide] else [HasNewlines])
            @ finish (print_vertical results headers)
        | Horizontal \<Rightarrow> finish (print_horizontal tabulate term results headers))"
    by (simp add: present_def layout_decision_def has_newlines_def Let_def)
  from wide nl plain route show ?thesis by blast
qed

theorem layout_decision_policy_witness:
  "layout_decision (replicate 11 (py ''c'')) [[CStr (py ''x'')]] = Vertical
   \<and> cells_inspected (replicate 11 (py ''c'')) [[CStr (py ''x'')]] = 0
   \<and> layout_decision [py ''a'', py ''b'', py ''c'']
         [[CInt 1, CStr (py ''u''), CNone], [CInt 2, CStr [118, 10, 119], CBytes [CHR 0x0A]]] = Vertical
   \<and> cells_inspected [py ''a'', py ''b'', py ''c'']
         [[CInt 1, CStr (py ''u''), CNone], [CInt 2, CStr [118, 10, 119], CBytes [CHR 0x0A]]] = 5
   \<and> layout_decision [py ''a'', py ''b'', py ''c'']
         [[CInt 1, CStr (py ''u''), CNone], [CInt 2, CStr (py ''v''), CBytes [CHR 0x0A]]] = Horizontal"
proof -
  let ?hs = "[py ''a'', py ''b'', py ''c'']"
  let ?nl = "[[CInt 1, CStr (py ''u''), CNone], [CInt 2, CStr [118, 10, 119], CBytes [CHR 0x0A]]]"
  let ?plain = "[[CInt 1, CStr (py ''u''), CNone], [CInt 2, CStr (py ''v''), CBytes [CHR 0x0A]]]"
  have w1: "layout_decision (replicate 11 (py ''c'')) [[CStr (py ''x'')]] = Vertical
      \<and> cells_inspected (replicate 11 (py ''c'')) [[CStr (py ''x'')]] = 0"
    by (rule layout_decision_policy [THEN conjunct1, THEN mp]) simp
  have w2: "layout_decision ?hs ?nl = Vertical \<and> cells_inspected ?hs ?nl = first_newline_cell ?nl"
    by (rule layout_decision_policy [THEN conjunct2, THEN conjunct1, THEN mp])
      (simp add: text_form_newline)
  have n: "first_newline_cell ?nl = 5"
    by (simp add: first_newline_cell_eq py_def)
  have w3: "layout_decision ?hs ?plain = Horizontal"
    by (rule layout_decision_policy [THEN conjunct2, THEN conjunct2, THEN conjunct1, THEN mp])
      (simp add: text_form_newline py_def)
  from w1 w2 w3 n show ?thesis by simp
qed
section \<open>Properties of \<open>run_query\<close>\<close>


text \<open>
  Claim C10. Once \<open>cursor.execute\<close> has accepted the statement, \<open>run_query\<close> returns a
  list of rows: the rows \<open>fetchall\<close> returns, or, when \<open>fetchall\<close> raises the driver's
  \<open>InterfaceError\<close> (no result set), the one row \<open>{"affected_rows": cursor.rowcount}\<close>.
  It never raises that \<open>InterfaceError\<close>; the only exception it lets through after
  \<open>execute\<close> is another error of \<open>fetchall\<close>.
\<close>

theorem run_query_no_result_set:
  assumes "conn sql = Inr cur"
  shows "(fetchall cur = Inl InterfaceError \<longrightarrow>
            snd (snd (run_query conn sql w)) = Inr [[(py ''affected_rows'', CInt (cur_rowcount cur))]])
       \<and> (\<forall>rows. fetchall cur = Inr rows \<longrightarrow> snd (snd (run_query conn sql w)) = Inr rows)
       \<and> snd (snd (run_query conn sql w)) \<noteq> Inl InterfaceError
       \<and> ((\<exists>rows. snd (snd (run_query conn sql w)) = Inr rows)
            \<or> (\<exists>e. e \<noteq> InterfaceError \<and> fetchall cur = Inl e
                   \<and> snd (snd (run_query conn sql w)) = Inl e))"
  using assms by (auto simp: run_query_def Let_def split: sum.splits)

text \<open>A connection on which every statement runs, affects 3 rows and has no result set.\<close>

definition demo_conn :: "pystr \<Rightarrow> py_error + cursor" where
  "demo_conn sql = Inr \<lparr>fetchall = Inl InterfaceError, cur_rowcount = 3\<rparr>"

theorem run_query_no_result_set_witness:
  "snd (snd (run_query demo_conn (py ''SET @a = 1'') \<lparr>files = Map.empty, executed = []\<rparr>))
     = Inr [[(py ''affected_rows'', CInt 3)]]"
  using run_query_no_result_set [of demo_conn "py ''SET @a = 1''"
      "\<lparr>fetchall = Inl InterfaceError, cur_rowcount = 3\<rparr>" "\<lparr>files = Map.empty, executed = []\<rparr>"]
  by (simp add: demo_conn_def)
section \<open>Properties of the Pagination Controller\<close>

text \<open>
  The invariant of the loop state, and what it says of the output: every range line
  \<open>start + 1 - end / total\<close> is that of a page which satisfies the invariant, and it
  is followed at once by what \<open>print_table\<close> prints for the rows of that page.
\<close>

definition page_inv :: "row list \<Rightarrow> int \<Rightarrow> int \<Rightarrow> bool" where
  "page_inv rows P page \<longleftrightarrow> 0 \<le> page \<and> page_start P page < int (length rows)"

fun shows_ok :: "env \<Rightarrow> row list \<Rightarrow> int \<Rightarrow> aout list \<Rightarrow> bool" where
  "shows_ok env rows P [] = True"
| "shows_ok env rows P (Showing a b t # post) =
     ((\<exists>page. page_inv rows P page \<and> a = page_start P page + 1 \<and> b = page_end rows P page
         \<and> t = length rows
         \<and> (\<exists>tail. post = fst (print_table env (page_rows rows P page) None) @ tail))
      \<and> shows_ok env rows P post)"
| "shows_ok env rows P (ev # post) = shows_ok env rows P post"

definition is_showing :: "aout \<Rightarrow> bool" where
  "is_showing ev = (case ev of Showing a b t \<Rightarrow> True | _ \<Rightarrow> False)"

lemma py_slice_length:
  assumes "0 \<le> a" "a \<le> b" "b \<le> int (length xs)"
  shows "int (length (py_slice a b xs)) = b - a"
  using assms by (auto simp: py_slice_def clip_index_def Let_def min_def)

lemma page_rows_length:
  assumes "1 \<le> P" "page_inv rows P page"
  shows "int (length (page_rows rows P page)) = page_end rows P page - page_start P page"
proof -
  have s: "0 \<le> page_start P page" using assms by (simp add: page_inv_def page_start_def)
  have "page_start P page \<le> page_end rows P page" "page_end rows P page \<le> int (length rows)"
    using assms by (auto simp: page_inv_def page_end_def)
  with s show ?thesis unfolding page_rows_def by (rule py_slice_length)
qed

lemma page_count:
  assumes "1 \<le> P" "page_inv rows P page"
  shows "page_end rows P page - page_start P page =
     (if page_end rows P page < int (length rows) then P
      else if int (length rows) mod P = 0 then P else int (length rows) mod P)"
proof (cases "page_start P page + P < int (length rows)")
  case True
  then show ?thesis by (simp add: page_end_def)
next
  case False
  define r where "r = int (length rows) - page_start P page"
  have r: "0 < r" "r \<le> P" using assms False by (auto simp: r_def page_inv_def)
  have e: "page_end rows P page = int (length rows)" using False by (simp add: page_end_def)
  have t: "int (length rows) = page * P + r" by (simp add: r_def page_start_def)
  have m: "int (length rows) mod P = r mod P" unfolding t by simp
  show ?thesis
  proof (cases "r = P")
    case True
    then show ?thesis using e m r_def by simp
  next
    case False
    then have "r mod P = r" using r by simp
    then show ?thesis using e m r r_def by simp
  qed
qed

lemma page_inv_0: "rows \<noteq> [] \<Longrightarrow> page_inv rows P 0"
  by (simp add: page_inv_def page_start_def)

lemma page_inv_next:
  assumes "1 \<le> P" "page_inv rows P page" "\<not> page_end rows P page \<ge> int (length rows)"
  shows "page_inv rows P (page + 1)"
  using assms by (auto simp: page_inv_def page_start_def page_end_def algebra_simps)

lemma page_inv_prev:
  assumes "1 \<le> P" "page_inv rows P page" "page \<noteq> 0"
  shows "page_inv rows P (page - 1)"
proof -
  have "(page - 1) * P = page * P - P" by (simp add: algebra_simps)
  then show ?thesis using assms by (simp add: page_inv_def page_start_def)
qed

lemma fst_prepend: "fst (prepend ls r) = ls @ fst r"
  by (cases r) (simp add: prepend_def)

lemma shows_ok_other: "\<not> is_showing ev \<Longrightarrow> shows_ok env rows P (ev # post) = shows_ok env rows P post"
  by (cases ev) (simp_all add: is_showing_def)

lemma shows_ok_plain: "\<forall>ev \<in> set xs. \<not> is_showing ev \<Longrightarrow> shows_ok env rows P xs"
  by (induction xs) (simp_all add: shows_ok_other)

lemma shows_ok_append:
  "shows_ok env rows P xs \<Longrightarrow> shows_ok env rows P ys \<Longrightarrow> shows_ok env rows P (xs @ ys)"
proof (induction xs)
  case Nil
  then show ?case by simp
next
  case (Cons ev xs)
  show ?case
  proof (cases "is_showing ev")
    case False
    then show ?thesis using Cons by (simp add: shows_ok_other)
  next
    case True
    then obtain a b t where ev: "ev = Showing a b t" by (cases ev) (simp_all add: is_showing_def)
    show ?thesis using Cons unfolding ev by auto
  qed
qed

lemma print_table_plain: "\<forall>ev \<in> set (fst (print_table env rows mw)). \<not> is_showing ev"
  by (auto simp: print_table_def Let_def is_showing_def split: list.splits option.splits sum.splits)

lemma save_csv_plain: "\<forall>ev \<in> set (fst (save_csv env rows inputs w)). \<not> is_showing ev"
  by (auto simp: save_csv_def Let_def is_showing_def
      split: list.splits option.splits sum.splits prod.splits if_splits)

lemma show_page_shows:
  assumes "page_inv rows P page"
  shows "shows_ok env rows P (fst (show_page env rows P page))"
proof -
  have "shows_ok env rows P (fst (print_table env (page_rows rows P page) None))"
    using print_table_plain by (rule shows_ok_plain)
  then show ?thesis using assms
    by (auto simp: show_page_def split: prod.splits)
qed

lemma shows_ok_extract:
  "shows_ok env rows P out \<Longrightarrow> out = pre @ Showing a b t # post \<Longrightarrow>
     \<exists>page. page_inv rows P page \<and> a = page_start P page + 1 \<and> b = page_end rows P page
       \<and> t = length rows
       \<and> (\<exists>tail. post = fst (print_table env (page_rows rows P page) None) @ tail)"
proof (induction pre arbitrary: out)
  case Nil
  then show ?case by simp
next
  case (Cons ev pre)
  then have "shows_ok env rows P (pre @ Showing a b t # post)"
    by (cases "is_showing ev") (auto simp: shows_ok_other is_showing_def split: aout.splits)
  then show ?case using Cons.IH by blast
qed

lemma shows_ok_prepend:
  assumes "shows_ok env rows P ls" "\<forall>ev \<in> set mid. \<not> is_showing ev"
    "shows_ok env rows P (fst r)"
  shows "shows_ok env rows P (fst (prepend (ls @ mid) r))"
proof -
  have "shows_ok env rows P mid" using assms(2) by (rule shows_ok_plain)
  with assms(1) have "shows_ok env rows P (ls @ mid)" by (rule shows_ok_append)
  then have "shows_ok env rows P ((ls @ mid) @ fst r)" using assms(3) by (rule shows_ok_append)
  then show ?thesis by (simp add: fst_prepend)
qed

lemma menu_plain:
  "\<forall>ev \<in> set [PageMenu]. \<not> is_showing ev"
  "\<forall>ev \<in> set [PageMenu, LastPage]. \<not> is_showing ev"
  "\<forall>ev \<in> set [PageMenu, FirstPage]. \<not> is_showing ev"
  "\<forall>ev \<in> set [PageMenu, InvalidCommand]. \<not> is_showing ev"
  by (simp_all add: is_showing_def)

lemma paginate_loop_shows:
  assumes "1 \<le> P" "page_inv rows P page"
  shows "shows_ok env rows P (fst (paginate_loop env rows P page inputs w))"
  using assms
proof (induction env rows P page inputs w rule: paginate_loop.induct)
  case (1 env rows P page inputs w)
  note P = "1.prems"(1) and inv = "1.prems"(2)
  obtain ls e where sp: "show_page env rows P page = (ls, e)"
    by (cases "show_page env rows P page")
  have ls: "shows_ok env rows P ls"
    using show_page_shows [OF inv, of env] unfolding sp by simp
  have lsm: "shows_ok env rows P (ls @ [PageMenu])"
    using ls by (simp add: shows_ok_append shows_ok_plain menu_plain)
  show ?case
  proof (cases e)
    case (Some err)
    then show ?thesis using sp ls by (subst paginate_loop.simps) simp
  next
    case None
    note e = this
    show ?thesis
    proof (cases inputs)
      case Nil
      then show ?thesis using sp e lsm by (subst paginate_loop.simps) simp
    next
      case (Cons l rest)
      define cmd where "cmd = lower (strip l)"
      note ctx = sp [symmetric] e Cons cmd_def
      consider (n_last) "cmd = py ''n''" "page_end rows P page \<ge> int (length rows)"
        | (n_more) "cmd = py ''n''" "\<not> page_end rows P page \<ge> int (length rows)"
        | (p_first) "cmd \<noteq> py ''n''" "cmd = py ''p''" "page = 0"
        | (p_back) "cmd \<noteq> py ''n''" "cmd = py ''p''" "page \<noteq> 0"
        | (s) "cmd \<noteq> py ''n''" "cmd \<noteq> py ''p''" "cmd = py ''s''"
        | (q) "cmd \<noteq> py ''n''" "cmd \<noteq> py ''p''" "cmd \<noteq> py ''s''" "cmd = py ''q''"
        | (other) "cmd \<noteq> py ''n''" "cmd \<noteq> py ''p''" "cmd \<noteq> py ''s''" "cmd \<noteq> py ''q''"
        by blast
      then show ?thesis
      proof cases
        case n_last
        have "shows_ok env rows P (fst (paginate_loop env rows P page rest w))"
          using "1.IH"(1) [OF ctx n_last P inv] .
        then have "shows_ok env rows P (fst (prepend (ls @ [PageMenu, LastPage])
            (paginate_loop env rows P page rest w)))"
          using ls menu_plain(2) by (intro shows_ok_prepend)
        then show ?thesis using sp e Cons cmd_def n_last
          by (subst paginate_loop.simps) simp
      next
        case n_more
        have "page_inv rows P (page + 1)" using page_inv_next [OF P inv n_more(2)] .
        then have "shows_ok env rows P (fst (paginate_loop env rows P (page + 1) rest w))"
          using "1.IH"(2) [OF ctx n_more P] by blast
        then have "shows_ok env rows P (fst (prepend (ls @ [PageMenu])
            (paginate_loop env rows P (page + 1) rest w)))"
          using ls menu_plain(1) by (intro shows_ok_prepend)
        then show ?thesis using sp e Cons cmd_def n_more
          by (subst paginate_loop.simps) simp
      next
        case p_first
        have "shows_ok env rows P (fst (paginate_loop env rows P page rest w))"
          using "1.IH"(3) [OF ctx p_first P inv] .
        then have "shows_ok env rows P (fst (prepend (ls @ [PageMenu, FirstPage])
            (paginate_loop env rows P page rest w)))"
          using ls menu_plain(3) by (intro shows_ok_prepend)
        then show ?thesis using sp e Cons cmd_def p_first
          by (subst paginate_loop.simps) simp
      next
        case p_back
        have "page_inv rows P (page - 1)" using page_inv_prev [OF P inv p_back(3)] .
        then have "shows_ok env rows P (fst (paginate_loop env rows P (page - 1) rest w))"
          using "1.IH"(4) [OF ctx p_back P] by blast
        then have "shows_ok env rows P (fst (prepend (ls @ [PageMenu])
            (paginate_loop env rows P (page - 1) rest w)))"
          using ls menu_plain(1) by (intro shows_ok_prepend)
        then show ?thesis using sp e Cons cmd_def p_back
          by (subst paginate_loop.simps) simp
      next
        case s
        obtain ls' rest' w' e' where sv: "save_csv env rows rest w = (ls', rest', w', e')"
          by (cases "save_csv env rows rest w")
        have pl: "\<forall>ev \<in> set ([PageMenu] @ ls'). \<not> is_showing ev"
          using save_csv_plain [of env rows rest w] sv by (simp add: is_showing_def)
        have "shows_ok env rows P ([PageMenu] @ ls')" using pl by (rule shows_ok_plain)
        with ls have all: "shows_ok env rows P (ls @ [PageMenu] @ ls')"
          by (rule shows_ok_append)
        show ?thesis
        proof (cases e')
          case (Some err)
          then show ?thesis using sp e Cons cmd_def s all sv
            by (subst paginate_loop.simps) simp
        next
          case None
          have "shows_ok env rows P (fst (paginate_loop env rows P page rest' w'))"
            using "1.IH"(5) [OF ctx s sv [symmetric] refl refl None P inv] .
          then have "shows_ok env rows P (fst (prepend (ls @ [PageMenu] @ ls')
              (paginate_loop env rows P page rest' w')))"
            using ls pl by (intro shows_ok_prepend)
          then show ?thesis using sp e Cons cmd_def s sv None
            by (subst paginate_loop.simps) simp
        qed
      next
        case q
        then show ?thesis using sp e Cons cmd_def lsm
          by (subst paginate_loop.simps) simp
      next
        case other
        have "shows_ok env rows P (fst (paginate_loop env rows P page rest w))"
          using "1.IH"(6) [OF ctx other P inv] .
        then have "shows_ok env rows P (fst (prepend (ls @ [PageMenu, InvalidCommand])
            (paginate_loop env rows P page rest w)))"
          using ls menu_plain(4) by (intro shows_ok_prepend)
        then show ?thesis using sp e Cons cmd_def other
          by (subst paginate_loop.simps) simp
      qed
    qed
  qed
qed

lemma py_slice_take_drop:
  assumes "0 \<le> a" "a \<le> b" "b \<le> int (length xs)"
  shows "py_slice a b xs = take (nat (b - a)) (drop (nat a) xs)"
  using assms by (auto simp: py_slice_def clip_index_def Let_def min_def nat_diff_distrib)

lemma page_rows_take_drop:
  assumes "1 \<le> P" "page_inv rows P page"
  shows "page_rows rows P page =
     take (nat (page_end rows P page - page_start P page)) (drop (nat (page_start P page)) rows)"
proof -
  have s: "0 \<le> page_start P page" using assms by (simp add: page_inv_def page_start_def)
  have "page_start P page \<le> page_end rows P page" "page_end rows P page \<le> int (length rows)"
    using assms by (auto simp: page_inv_def page_end_def)
  with s show ?thesis unfolding page_rows_def by (rule py_slice_take_drop)
qed

lemma page_rows_nonempty:
  assumes "1 \<le> P" "page_inv rows P page"
  shows "page_rows rows P page \<noteq> []"
proof -
  have "0 < page_end rows P page - page_start P page"
    using assms by (auto simp: page_inv_def page_end_def)
  then have "0 < int (length (page_rows rows P page))"
    using page_rows_length [OF assms] by simp
  then show ?thesis by auto
qed

lemma length_text_table: "length (text_table hs ll) = length ll + 4"
  by (simp add: text_table_def Let_def)

lemma length_rows_ll: "length (rows_ll mw hs rs) = length rs"
  by (simp add: rows_ll_def)

lemma print_table_rows:
  assumes "rs \<noteq> []"
  shows "print_table env rs None =
     (let hs = dict_keys (hd rs);
          ll = rows_ll (adaptive_cell_width (terminal env) hs 24 80) hs rs
      in case have_tabulate env of
           Some tab \<Rightarrow> (case tab ll hs of Inr text \<Rightarrow> ([TableText text], None)
                        | Inl e \<Rightarrow> ([], Some e))
         | None \<Rightarrow> (map TextLine (text_table hs ll), None))"
  using assms by (cases rs) (simp_all add: print_table_def Let_def)

lemma py_n: "py ''n'' = [110]" and py_p: "py ''p'' = [112]" and py_s: "py ''s'' = [115]"
  and py_q: "py ''q'' = [113]"
  by (simp_all add: py_def)

lemma next_on_last_page:
  assumes "show_page env rows P page = (ls, None)" "lower (strip l) = py ''n''"
    "page_end rows P page \<ge> int (length rows)"
  shows "paginate_loop env rows P page (l # rest) w =
           prepend (ls @ [PageMenu, LastPage]) (paginate_loop env rows P page rest w)"
  using assms by (subst paginate_loop.simps) simp

lemma previous_on_first_page:
  assumes "show_page env rows P 0 = (ls, None)" "lower (strip l) = py ''p''"
  shows "paginate_loop env rows P 0 (l # rest) w =
           prepend (ls @ [PageMenu, FirstPage]) (paginate_loop env rows P 0 rest w)"
  using assms by (subst paginate_loop.simps) (simp add: py_n py_p)

text \<open>
  Claim C5. For a non-empty result set and \<open>page_size \<ge> 1\<close>, whatever lines the user
  types: every range line \<open>paginate\<close> prints is that of a page \<open>page \<ge> 0\<close> with
  \<open>start = page * page_size < total\<close>, and the table printed under it is the one
  \<open>print_table\<close> prints for \<open>rows[start:end]\<close>; for every such page, \<open>start\<close> is a
  multiple of \<open>page_size\<close> with \<open>0 \<le> start < total\<close>, the rows of the page are the
  \<open>end - start\<close> rows from \<open>start\<close> on, \<open>page_size\<close> many, except on the last page,
  which has \<open>total mod page_size\<close> rows (or \<open>page_size\<close> when that is 0), and the table
  has one line of cells for each of them; \<open>n\<close> on the last page and \<open>p\<close> on the first
  page print the boundary message and go round the loop with the same state.
\<close>

theorem pagination_invariant:
  assumes "rows \<noteq> []" "1 \<le> P"
  shows "(\<forall>pre a b t post.
           fst (paginate env rows P inputs w) = pre @ Showing a b t # post \<longrightarrow>
           (\<exists>page. page_inv rows P page \<and> a = page_start P page + 1
              \<and> b = page_end rows P page \<and> t = length rows
              \<and> (\<exists>tail. post = fst (print_table env (page_rows rows P page) None) @ tail)))
    \<and> (\<forall>page. page_inv rows P page \<longrightarrow>
           page_start P page = page * P \<and> page_start P page mod P = 0
         \<and> 0 \<le> page_start P page \<and> page_start P page < int (length rows)
         \<and> int (length (page_rows rows P page)) =
             (if page_end rows P page < int (length rows) then P
              else if int (length rows) mod P = 0 then P else int (length rows) mod P)
         \<and> page_rows rows P page =
             take (nat (page_end rows P page - page_start P page))
               (drop (nat (page_start P page)) rows)
         \<and> (let rs = page_rows rows P page;
                 hs = dict_keys (hd rs);
                 ll = rows_ll (adaptive_cell_width (terminal env) hs 24 80) hs rs
             in length ll = length rs
              \<and> length (text_table hs ll) = length rs + 4
              \<and> print_table env rs None =
                  (case have_tabulate env of
                     Some tab \<Rightarrow> (case tab ll hs of Inr text \<Rightarrow> ([TableText text], None)
                                  | Inl e \<Rightarrow> ([], Some e))
                   | None \<Rightarrow> (map TextLine (text_table hs ll), None))))
    \<and> (\<forall>page l rest ls.
           show_page env rows P page = (ls, None) \<and> lower (strip l) = py ''n''
           \<and> page_end rows P page \<ge> int (length rows) \<longrightarrow>
           paginate_loop env rows P page (l # rest) w =
             prepend (ls @ [PageMenu, LastPage]) (paginate_loop env rows P page rest w))
    \<and> (\<forall>l rest ls.
           show_page env rows P 0 = (ls, None) \<and> lower (strip l) = py ''p'' \<longrightarrow>
           paginate_loop env rows P 0 (l # rest) w =
             prepend (ls @ [PageMenu, FirstPage]) (paginate_loop env rows P 0 rest w))"
proof -
  have ok: "shows_ok env rows P (fst (paginate env rows P inputs w))"
    using paginate_loop_shows [OF assms(2) page_inv_0 [OF assms(1)]] assms(1)
    by (simp add: paginate_def)
  have a: "\<forall>pre a b t post.
           fst (paginate env rows P inputs w) = pre @ Showing a b t # post \<longrightarrow>
           (\<exists>page. page_inv rows P page \<and> a = page_start P page + 1
              \<and> b = page_end rows P page \<and> t = length rows
              \<and> (\<exists>tail. post = fst (print_table env (page_rows rows P page) None) @ tail))"
    using shows_ok_extract [OF ok] by blast
  have b: "\<forall>page. page_inv rows P page \<longrightarrow>
           page_start P page = page * P \<and> page_start P page mod P = 0
         \<and> 0 \<le> page_start P page \<and> page_start P page < int (length rows)
         \<and> int (length (page_rows rows P page)) =
             (if page_end rows P page < int (length rows) then P
              else if int (length rows) mod P = 0 then P else int (length rows) mod P)
         \<and> page_rows rows P page =
             take (nat (page_end rows P page - page_start P page))
               (drop (nat (page_start P page)) rows)
         \<and> (let rs = page_rows rows P page;
                 hs = dict_keys (hd rs);
                 ll = rows_ll (adaptive_cell_width (terminal env) hs 24 80) hs rs
             in length ll = length rs
              \<and> length (text_table hs ll) = length rs + 4
              \<and> print_table env rs None =
                  (case have_tabulate env of
                     Some tab \<Rightarrow> (case tab ll hs of Inr text \<Rightarrow> ([TableText text], None)
                                  | Inl e \<Rightarrow> ([], Some e))
                   | None \<Rightarrow> (map TextLine (text_table hs ll), None)))"
  proof (intro allI impI)
    fix page assume inv: "page_inv rows P page"
    have 1: "int (length (page_rows rows P page)) =
             (if page_end rows P page < int (length rows) then P
              else if int (length rows) mod P = 0 then P else int (length rows) mod P)"
      using page_rows_length [OF assms(2) inv] page_count [OF assms(2) inv] by simp
    have 2: "page_start P page = page * P" "page_start P page mod P = 0"
      by (simp_all add: page_start_def)
    have 3: "0 \<le> page_start P page" "page_start P page < int (length rows)"
      using inv assms(2) by (simp_all add: page_inv_def page_start_def)
    have 4: "page_rows rows P page =
             take (nat (page_end rows P page - page_start P page))
               (drop (nat (page_start P page)) rows)"
      using assms(2) inv by (rule page_rows_take_drop)
    have ne: "page_rows rows P page \<noteq> []" using assms(2) inv by (rule page_rows_nonempty)
    have 5: "let rs = page_rows rows P page;
                 hs = dict_keys (hd rs);
                 ll = rows_ll (adaptive_cell_width (terminal env) hs 24 80) hs rs
             in length ll = length rs
              \<and> length (text_table hs ll) = length rs + 4
              \<and> print_table env rs None =
                  (case have_tabulate env of
                     Some tab \<Rightarrow> (case tab ll hs of Inr text \<Rightarrow> ([TableText text], None)
                                  | Inl e \<Rightarrow> ([], Some e))
                   | None \<Rightarrow> (map TextLine (text_table hs ll), None))"
      using print_table_rows [OF ne, of env]
      by (simp add: Let_def length_text_table length_rows_ll)
    from 1 2 3 4 5
    show "page_start P page = page * P \<and> page_start P page mod P = 0
         \<and> 0 \<le> page_start P page \<and> page_start P page < int (length rows)
         \<and> int (length (page_rows rows P page)) =
             (if page_end rows P page < int (length rows) then P
              else if int (length rows) mod P = 0 then P else int (length rows) mod P)
         \<and> page_rows rows P page =
             take (nat (page_end rows P page - page_start P page))
               (drop (nat (page_start P page)) rows)
         \<and> (let rs = page_rows rows P page;
                 hs = dict_keys (hd rs);
                 ll = rows_ll (adaptive_cell_width (terminal env) hs 24 80) hs rs
             in length ll = length rs
              \<and> length (text_table hs ll) = length rs + 4
              \<and> print_table env rs None =
                  (case have_tabulate env of
                     Some tab \<Rightarrow> (case tab ll hs of Inr text \<Rightarrow> ([TableText text], None)
                                  | Inl e \<Rightarrow> ([], Some e))
                   | None \<Rightarrow> (map TextLine (text_table hs ll), None)))"
      by blast
  qed
  have c: "\<forall>page l rest ls.
           show_page env rows P page = (ls, None) \<and> lower (strip l) = py ''n''
           \<and> page_end rows P page \<ge> int (length rows) \<longrightarrow>
           paginate_loop env rows P page (l # rest) w =
             prepend (ls @ [PageMenu, LastPage]) (paginate_loop env rows P page rest w)"
    using next_on_last_page by blast
  have d: "\<forall>l rest ls.
           show_page env rows P 0 = (ls, None) \<and> lower (strip l) = py ''p'' \<longrightarrow>
           paginate_loop env rows P 0 (l # rest) w =
             prepend (ls @ [PageMenu, FirstPage]) (paginate_loop env rows P 0 rest w)"
    using previous_on_first_page by blast
  show ?thesis by (rule conjI [OF a conjI [OF b conjI [OF c d]]])
qed

text \<open>
  A small session for the examples: three rows of one column, a backend that returns an
  empty table text, every path writable.
\<close>

definition demo_env :: env where
  "demo_env = \<lparr>terminal = Some 80, have_tabulate = Some (\<lambda>ll headers. Inr []),
               default_name = py ''ob_query.csv'', can_open = (\<lambda>path. True)\<rparr>"

definition demo_rows :: "row list" where
  "demo_rows = [[(py ''id'', CInt 1)], [(py ''id'', CInt 2)], [(py ''id'', CInt 3)]]"

definition demo_world :: world where
  "demo_world = \<lparr>files = Map.empty, executed = []\<rparr>"

lemma cmd_simps:
  "lower (strip (py ''n'')) = py ''n''" "lower (strip (py ''p'')) = py ''p''"
  "lower (strip (py ''s'')) = py ''s''" "lower (strip (py ''Q'')) = py ''q''"
  by (simp_all add: py_def strip_def lower_def lower_char_def is_space_def)

lemma demo_show_page:
  "show_page demo_env demo_rows 2 page =
     ([ClearScreen, Showing (page_start 2 page + 1) (page_end demo_rows 2 page) 3,
       TableText []], None)
   \<or> page_rows demo_rows 2 page = []"
  by (auto simp: show_page_def print_table_def demo_env_def demo_rows_def Let_def split: list.splits)

lemma digits_small: "n < 10 \<Longrightarrow> digits n = [48 + n]"
  by (subst digits.simps) simp

text \<open>
  A backend that shows the cells it is given, one after the other.
\<close>

definition echo_env :: env where
  "echo_env = \<lparr>terminal = Some 80,
                have_tabulate = Some (\<lambda>ll headers. Inr (concat (map concat ll))),
                default_name = py ''ob_query.csv'', can_open = (\<lambda>path. True)\<rparr>"

lemma clean_digit: "n < 10 \<Longrightarrow> 1 \<le> L \<Longrightarrow> clean L (CInt (int n)) = [48 + n]"
  by (simp add: clean_def Let_def clean_text_def str_int_def digits_small
      split_ws_def is_space_def replace_char_def encode_fallback_def is_surrogate_def)

lemma clean_123:
  assumes "1 \<le> L"
  shows "clean L (CInt 1) = [49]" "clean L (CInt 2) = [50]" "clean L (CInt 3) = [51]"
  using clean_digit [of 1 L] clean_digit [of 2 L] clean_digit [of 3 L] assms by simp_all

lemma demo_pages:
  "page_rows demo_rows 2 0 = [[(py ''id'', CInt 1)], [(py ''id'', CInt 2)]]"
  "page_rows demo_rows 2 1 = [[(py ''id'', CInt 3)]]"
  "page_end demo_rows 2 0 = 2" "page_start 2 0 = 0"
  "page_end demo_rows 2 1 = 3" "page_start 2 1 = 2"
  "int (length demo_rows) = 3"
  by (simp_all add: page_rows_def page_start_def page_end_def demo_rows_def py_slice_def
      clip_index_def)

lemma echo_tables:
  "print_table echo_env [[(py ''id'', CInt 1)], [(py ''id'', CInt 2)]] None
     = ([TableText [49, 50]], None)"
  "print_table echo_env [[(py ''id'', CInt 3)]] None = ([TableText [51]], None)"
  by (simp_all add: print_table_def echo_env_def Let_def rows_ll_def dict_keys_def dict_get_def
      adaptive_cell_width_def clean_123)

lemma echo_show_page:
  "show_page echo_env demo_rows 2 0 = ([ClearScreen, Showing 1 2 3, TableText [49, 50]], None)"
  "show_page echo_env demo_rows 2 1 = ([ClearScreen, Showing 3 3 3, TableText [51]], None)"
  by (simp_all add: show_page_def demo_pages echo_tables) (simp_all add: demo_rows_def)

lemma echo_run:
  "fst (paginate echo_env demo_rows 2 [py ''n'', py ''n'', py ''Q''] demo_world) =
     [ClearScreen, Showing 1 2 3, TableText [49, 50], PageMenu,
      ClearScreen, Showing 3 3 3, TableText [51], PageMenu, LastPage,
      ClearScreen, Showing 3 3 3, TableText [51], PageMenu]"
proof -
  have c: "paginate_loop echo_env demo_rows 2 1 [py ''Q''] demo_world =
      ([ClearScreen, Showing 3 3 3, TableText [51], PageMenu], [], demo_world, None)"
    by (subst paginate_loop.simps) (simp add: echo_show_page cmd_simps py_n py_p py_s py_q)
  have b: "paginate_loop echo_env demo_rows 2 1 [py ''n'', py ''Q''] demo_world =
      ([ClearScreen, Showing 3 3 3, TableText [51], PageMenu, LastPage,
        ClearScreen, Showing 3 3 3, TableText [51], PageMenu], [], demo_world, None)"
    by (subst paginate_loop.simps) (simp add: echo_show_page cmd_simps demo_pages c prepend_def)
  have a: "paginate_loop echo_env demo_rows 2 0 [py ''n'', py ''n'', py ''Q''] demo_world =
      ([ClearScreen, Showing 1 2 3, TableText [49, 50], PageMenu,
        ClearScreen, Showing 3 3 3, TableText [51], PageMenu, LastPage,
        ClearScreen, Showing 3 3 3, TableText [51], PageMenu], [], demo_world, None)"
    by (subst paginate_loop.simps) (simp add: echo_show_page cmd_simps demo_pages b prepend_def)
  show ?thesis using a by (simp add: paginate_def demo_rows_def)
qed

theorem pagination_invariant_witness:
  "(\<exists>page. page_inv demo_rows 2 page \<and> 3 = page_start 2 page + 1
      \<and> 3 = page_end demo_rows 2 page \<and> 3 = length demo_rows
      \<and> (\<exists>tail. [TableText [51], PageMenu, LastPage,
                   ClearScreen, Showing 3 3 3, TableText [51], PageMenu]
             = fst (print_table echo_env (page_rows demo_rows 2 page) None) @ tail))
   \<and> page_inv demo_rows 2 1
   \<and> int (length (page_rows demo_rows 2 1)) = 1
   \<and> page_rows demo_rows 2 1 = take 1 (drop 2 demo_rows)
   \<and> print_table echo_env (page_rows demo_rows 2 1) None = ([TableText [51]], None)
   \<and> paginate_loop echo_env demo_rows 2 1 [py ''n'', py ''Q''] demo_world =
       prepend [ClearScreen, Showing 3 3 3, TableText [51], PageMenu, LastPage]
         (paginate_loop echo_env demo_rows 2 1 [py ''Q''] demo_world)
   \<and> paginate_loop echo_env demo_rows 2 0 [py ''p'', py ''Q''] demo_world =
       prepend [ClearScreen, Showing 1 2 3, TableText [49, 50], PageMenu, FirstPage]
         (paginate_loop echo_env demo_rows 2 0 [py ''Q''] demo_world)"
proof -
  have ne: "demo_rows \<noteq> []" by (simp add: demo_rows_def)
  have P: "(1::int) \<le> 2" by simp
  note th = pagination_invariant [OF ne P, of echo_env "[py ''n'', py ''n'', py ''Q'']" demo_world]
  have inv: "page_inv demo_rows 2 1" by (simp add: page_inv_def demo_pages)
  have run: "fst (paginate echo_env demo_rows 2 [py ''n'', py ''n'', py ''Q''] demo_world) =
      [ClearScreen, Showing 1 2 3, TableText [49, 50], PageMenu, ClearScreen]
      @ Showing 3 3 3 # [TableText [51], PageMenu, LastPage,
                          ClearScreen, Showing 3 3 3, TableText [51], PageMenu]"
    by (simp add: echo_run)
  from th have "fst (paginate echo_env demo_rows 2 [py ''n'', py ''n'', py ''Q''] demo_world) =
      [ClearScreen, Showing 1 2 3, TableText [49, 50], PageMenu, ClearScreen]
      @ Showing 3 3 3 # [TableText [51], PageMenu, LastPage,
                          ClearScreen, Showing 3 3 3, TableText [51], PageMenu]
    \<longrightarrow> (\<exists>page. page_inv demo_rows 2 page \<and> 3 = page_start 2 page + 1
      \<and> 3 = page_end demo_rows 2 page \<and> 3 = length demo_rows
      \<and> (\<exists>tail. [TableText [51], PageMenu, LastPage,
                   ClearScreen, Showing 3 3 3, TableText [51], PageMenu]
             = fst (print_table echo_env (page_rows demo_rows 2 page) None) @ tail))"
    by blast
  with run have f: "\<exists>page. page_inv demo_rows 2 page \<and> 3 = page_start 2 page + 1
      \<and> 3 = page_end demo_rows 2 page \<and> 3 = length demo_rows
      \<and> (\<exists>tail. [TableText [51], PageMenu, LastPage,
                   ClearScreen, Showing 3 3 3, TableText [51], PageMenu]
             = fst (print_table echo_env (page_rows demo_rows 2 page) None) @ tail)"
    by (rule rev_mp)
  from th inv have pg: "int (length (page_rows demo_rows 2 1)) =
      (if page_end demo_rows 2 1 < int (length demo_rows) then 2
       else if int (length demo_rows) mod 2 = 0 then 2 else int (length demo_rows) mod 2)
     \<and> page_rows demo_rows 2 1 =
         take (nat (page_end demo_rows 2 1 - page_start 2 1)) (drop (nat (page_start 2 1)) demo_rows)
     \<and> (let rs = page_rows demo_rows 2 1;
             hs = dict_keys (hd rs);
             ll = rows_ll (adaptive_cell_width (terminal echo_env) hs 24 80) hs rs
         in length ll = length rs
          \<and> length (text_table hs ll) = length rs + 4
          \<and> print_table echo_env rs None =
              (case have_tabulate echo_env of
                 Some tab \<Rightarrow> (case tab ll hs of Inr text \<Rightarrow> ([TableText text], None)
                              | Inl e \<Rightarrow> ([], Some e))
               | None \<Rightarrow> (map TextLine (text_table hs ll), None)))"
    by blast
  from pg [THEN conjunct1] have n: "int (length (page_rows demo_rows 2 1)) = 1"
    by (simp add: demo_pages(3-7))
  from pg [THEN conjunct2, THEN conjunct1]
  have td: "page_rows demo_rows 2 1 = take 1 (drop 2 demo_rows)"
    by (simp add: demo_pages(3-7))
  from pg [THEN conjunct2, THEN conjunct2]
  have pt: "print_table echo_env (page_rows demo_rows 2 1) None = ([TableText [51]], None)"
    by (simp add: Let_def demo_pages(2) echo_env_def rows_ll_def dict_keys_def dict_get_def
        adaptive_cell_width_def clean_123)
  from th have "show_page echo_env demo_rows 2 1 = ([ClearScreen, Showing 3 3 3, TableText [51]], None)
      \<and> lower (strip (py ''n'')) = py ''n'' \<and> page_end demo_rows 2 1 \<ge> int (length demo_rows)
    \<longrightarrow> paginate_loop echo_env demo_rows 2 1 (py ''n'' # [py ''Q'']) demo_world =
       prepend ([ClearScreen, Showing 3 3 3, TableText [51]] @ [PageMenu, LastPage])
         (paginate_loop echo_env demo_rows 2 1 [py ''Q''] demo_world)"
    by blast
  then have l: "paginate_loop echo_env demo_rows 2 1 [py ''n'', py ''Q''] demo_world =
       prepend [ClearScreen, Showing 3 3 3, TableText [51], PageMenu, LastPage]
         (paginate_loop echo_env demo_rows 2 1 [py ''Q''] demo_world)"
    by (simp add: echo_show_page cmd_simps demo_pages)
  from th have "show_page echo_env demo_rows 2 0 = ([ClearScreen, Showing 1 2 3, TableText [49, 50]], None)
      \<and> lower (strip (py ''p'')) = py ''p''
    \<longrightarrow> paginate_loop echo_env demo_rows 2 0 (py ''p'' # [py ''Q'']) demo_world =
       prepend ([ClearScreen, Showing 1 2 3, TableText [49, 50]] @ [PageMenu, FirstPage])
         (paginate_loop echo_env demo_rows 2 0 [py ''Q''] demo_world)"
    by blast
  then have p: "paginate_loop echo_env demo_rows 2 0 [py ''p'', py ''Q''] demo_world =
       prepend [ClearScreen, Showing 1 2 3, TableText [49, 50], PageMenu, FirstPage]
         (paginate_loop echo_env demo_rows 2 0 [py ''Q''] demo_world)"
    by (simp add: echo_show_page cmd_simps)
  show ?thesis by (rule conjI [OF f conjI [OF inv conjI [OF n conjI [OF td conjI [OF pt conjI [OF l p]]]]]])
qed
section \<open>Properties of the Export Writer\<close>

subsection \<open>Reading back what \<open>csv.writer\<close> writes\<close>

lemma read_unquoted:
  "\<forall>c \<in> set f. \<not> csv_special c \<Longrightarrow>
     foldl csv_step (InField, g, r, out) f = (InField, g @ f, r, out)"
  by (induction f arbitrary: g) (auto simp: csv_special_def)

lemma read_unquoted_start:
  assumes "f \<noteq> []" "\<forall>c \<in> set f. \<not> csv_special c"
  shows "foldl csv_step (StartField, [], r, out) f = (InField, f, r, out)"
proof -
  from assms(1) obtain c cs where f: "f = c # cs" by (cases f) auto
  then have "csv_step (StartField, [], r, out) c = (InField, [c], r, out)"
    using assms(2) by (simp add: on_start_field_def csv_special_def)
  then show ?thesis using f assms(2) read_unquoted [of cs "[c]" r out] by simp
qed

lemma read_quoted_body:
  "foldl csv_step (InQuoted, g, r, out) (concat (map (\<lambda>c. if c = 34 then [34, 34] else [c]) f))
     = (InQuoted, g @ f, r, out)"
  by (induction f arbitrary: g) auto

lemma read_quoted:
  "foldl csv_step (StartField, [], r, out) (csv_quote f) = (QuoteInQuoted, f, r, out)"
  by (simp add: csv_quote_def on_start_field_def read_quoted_body)

definition pending :: "reader \<Rightarrow> pystr \<Rightarrow> pystr list \<Rightarrow> pystr list list \<Rightarrow> bool" where
  "pending s f r out \<longleftrightarrow>
     (s = (StartField, [], r, out) \<and> f = []) \<or> s = (InField, f, r, out)
     \<or> s = (QuoteInQuoted, f, r, out)"

lemma field_pending:
  "pending (foldl csv_step (StartField, [], r, out) (csv_field f)) f r out"
proof (cases "list_ex csv_special f")
  case True
  then show ?thesis by (simp add: csv_field_def read_quoted pending_def)
next
  case False
  then have plain: "\<forall>c \<in> set f. \<not> csv_special c" by (simp add: list_ex_iff)
  show ?thesis
  proof (cases "f = []")
    case True
    then show ?thesis by (simp add: csv_field_def pending_def)
  next
    case False
    then show ?thesis using plain \<open>\<not> list_ex csv_special f\<close>
      by (simp add: csv_field_def read_unquoted_start pending_def)
  qed
qed

lemma pending_comma:
  "pending s f r out \<Longrightarrow> csv_step s 44 = (StartField, [], r @ [f], out)"
  by (auto simp: pending_def on_start_field_def)

lemma pending_crlf:
  "pending s f r out \<Longrightarrow> foldl csv_step s [13, 10] = (StartRecord, [], [], out @ [r @ [f]])"
  by (auto simp: pending_def on_start_field_def end_record_def)

lemma fields_pending:
  "fs \<noteq> [] \<Longrightarrow>
     pending (foldl csv_step (StartField, [], r, out) (join [44] (map csv_field fs)))
       (last fs) (r @ butlast fs) out"
proof (induction fs arbitrary: r)
  case Nil
  then show ?case by simp
next
  case (Cons f fs)
  show ?case
  proof (cases fs)
    case Nil
    then show ?thesis using field_pending [of r out f] by simp
  next
    case (Cons g gs)
    have "foldl csv_step (StartField, [], r, out) (join [44] (map csv_field (f # fs)))
        = foldl csv_step (csv_step (foldl csv_step (StartField, [], r, out) (csv_field f)) 44)
            (join [44] (map csv_field fs))"
      using Cons by simp
    also have "\<dots> = foldl csv_step (StartField, [], r @ [f], out) (join [44] (map csv_field fs))"
      using pending_comma [OF field_pending] by simp
    finally show ?thesis using Cons.IH [of "r @ [f]"] Cons by simp
  qed
qed

lemma csv_field_head:
  "csv_field f = [] \<or> (\<exists>c cs. csv_field f = c # cs \<and> c \<noteq> 13 \<and> c \<noteq> 10)"
proof (cases "list_ex csv_special f")
  case True
  then show ?thesis by (simp add: csv_field_def csv_quote_def)
next
  case False
  then have plain: "\<forall>c \<in> set f. \<not> csv_special c" by (simp add: list_ex_iff)
  show ?thesis using False plain by (cases f) (auto simp: csv_field_def csv_special_def)
qed

lemma csv_field_Nil: "csv_field f = [] \<longleftrightarrow> f = []"
  by (cases f) (simp_all add: csv_field_def csv_quote_def)

lemma body_head:
  assumes "fs \<noteq> []" "fs \<noteq> [[]]"
  shows "\<exists>c cs. join [44] (map csv_field fs) = c # cs \<and> c \<noteq> 13 \<and> c \<noteq> 10"
proof -
  from assms(1) obtain f gs where fs: "fs = f # gs" by (cases fs) auto
  show ?thesis
  proof (cases gs)
    case Nil
    then have "f \<noteq> []" using assms(2) fs by simp
    then show ?thesis using csv_field_head [of f] fs Nil by (auto simp: csv_field_Nil)
  next
    case (Cons g hs)
    then show ?thesis using csv_field_head [of f] fs by auto
  qed
qed

lemma start_record_as_field:
  assumes "c \<noteq> 13" "c \<noteq> 10"
  shows "foldl csv_step (StartRecord, [], [], out) (c # cs)
       = foldl csv_step (StartField, [], [], out) (c # cs)"
  using assms by (simp add: on_start_record_def)

lemma read_line:
  "foldl csv_step (StartRecord, [], [], out) (csv_line fs) = (StartRecord, [], [], out @ [fs])"
proof (cases "fs = [] \<or> fs = [[]]")
  case True
  then show ?thesis
    by (auto simp: csv_line_def on_start_record_def on_start_field_def end_record_def)
next
  case False
  then have ne: "fs \<noteq> []" "fs \<noteq> [[]]" by auto
  from body_head [OF ne] obtain c cs where b: "join [44] (map csv_field fs) = c # cs"
    "c \<noteq> 13" "c \<noteq> 10" by blast
  have "foldl csv_step (StartRecord, [], [], out) (csv_line fs)
      = foldl csv_step (foldl csv_step (StartRecord, [], [], out) (c # cs)) [13, 10]"
    using ne b(1) by (simp add: csv_line_def)
  also have "\<dots> = foldl csv_step (foldl csv_step (StartField, [], [], out)
        (join [44] (map csv_field fs))) [13, 10]"
    using start_record_as_field [OF b(2,3)] b(1) by simp
  also have "\<dots> = (StartRecord, [], [], out @ [[] @ butlast fs @ [last fs]])"
    using pending_crlf [OF fields_pending [OF ne(1), of "[]" out]] by simp
  finally show ?thesis using ne(1) by simp
qed

lemma read_lines:
  "foldl csv_step (StartRecord, [], [], out) (concat (map csv_line recs))
     = (StartRecord, [], [], out @ recs)"
  by (induction recs arbitrary: out) (simp_all add: read_line)

lemma csv_reader_lines: "csv_reader (concat (map csv_line recs)) = recs"
  by (simp add: csv_reader_def read_lines)


subsection \<open>What \<open>save_csv\<close> writes\<close>

text \<open>
  The field a cell is exported as: the empty string for \<open>None\<close> (and for a missing
  key), \<open>str\<close> of the value otherwise. A result set is well formed for export when
  every row has no column beyond those of the first row and no name or cell text holds
  a lone surrogate.
\<close>

definition cell_field :: "row \<Rightarrow> pystr \<Rightarrow> pystr" where
  "cell_field r h = field_text (dict_get r h)"

definition row_fields :: "pystr list \<Rightarrow> row \<Rightarrow> pystr list" where
  "row_fields headers r = map (cell_field r) headers"

definition encodable :: "pystr \<Rightarrow> bool" where
  "encodable s \<longleftrightarrow> \<not> list_ex is_surrogate s"

definition well_formed :: "row list \<Rightarrow> bool" where
  "well_formed rows \<longleftrightarrow>
     (\<forall>r \<in> set rows. set (dict_keys r) \<subseteq> set (dict_keys (hd rows))
        \<and> (\<forall>(k, v) \<in> set r. encodable k \<and> encodable (field_text v)))"

lemma set_join_sep: "c \<in> set (join sep ws) \<Longrightarrow> c \<in> set sep \<or> (\<exists>w \<in> set ws. c \<in> set w)"
  by (induction sep ws rule: join.induct) auto

lemma set_csv_field: "c \<in> set (csv_field f) \<Longrightarrow> c = 34 \<or> c \<in> set f"
  by (auto simp: csv_field_def csv_quote_def split: if_splits)

lemma set_csv_line:
  assumes "c \<in> set (csv_line fs)"
  shows "c \<in> {34, 44, 13, 10} \<or> (\<exists>f \<in> set fs. c \<in> set f)"
proof (cases "fs = [[]]")
  case True
  then show ?thesis using assms by (auto simp: csv_line_def)
next
  case False
  then have "c \<in> set (join [44] (map csv_field fs)) \<or> c = 13 \<or> c = 10"
    using assms by (auto simp: csv_line_def)
  then show ?thesis using set_join_sep [of c "[44]" "map csv_field fs"] set_csv_field by fastforce
qed

lemma csv_line_encodable:
  assumes "\<forall>f \<in> set fs. encodable f"
  shows "\<not> list_ex is_surrogate (csv_line fs)"
proof -
  have "\<not> is_surrogate c" if "c \<in> set (csv_line fs)" for c
  proof -
    from set_csv_line [OF that] show ?thesis
    proof
      assume "c \<in> {34, 44, 13, 10}"
      then show ?thesis by (auto simp: is_surrogate_def)
    next
      assume "\<exists>f \<in> set fs. c \<in> set f"
      then show ?thesis using assms by (auto simp: encodable_def list_ex_iff)
    qed
  qed
  then show ?thesis by (auto simp: list_ex_iff)
qed

lemma dict_keys_map: "dict_keys (map (\<lambda>(k, v). (k, g v)) r) = dict_keys r"
  by (induction r) (auto simp: dict_keys_def)

lemma dict_to_list_ok:
  assumes "set (dict_keys r) \<subseteq> set headers"
  shows "\<exists>vals. dict_to_list headers (map (\<lambda>(k, v). (k, none_to_empty v)) r) = Inr vals
           \<and> map field_text vals = row_fields headers r"
proof -
  have "\<not> list_ex (\<lambda>k. k \<notin> set headers) (dict_keys r)"
    using assms by (auto simp: list_ex_iff)
  then show ?thesis
    by (auto simp: dict_to_list_def dict_keys_map map_of_map row_fields_def cell_field_def
        dict_get_def field_text_def none_to_empty_def split: option.splits)
qed

lemma cell_field_encodable:
  assumes "\<forall>(k, v) \<in> set r. encodable k \<and> encodable (field_text v)"
  shows "encodable (cell_field r h)"
proof (cases "map_of r h")
  case None
  then show ?thesis by (simp add: cell_field_def dict_get_def field_text_def encodable_def)
next
  case (Some v)
  then have "(h, v) \<in> set r" by (rule map_of_SomeD)
  then show ?thesis using assms Some by (auto simp: cell_field_def dict_get_def)
qed

lemma write_rows_ok:
  assumes "\<forall>r \<in> set rows. set (dict_keys r) \<subseteq> set headers
      \<and> (\<forall>(k, v) \<in> set r. encodable k \<and> encodable (field_text v))"
  shows "write_rows headers rows acc =
           (acc @ concat (map (\<lambda>r. csv_line (row_fields headers r)) rows), None)"
  using assms
proof (induction rows arbitrary: acc)
  case Nil
  then show ?case by simp
next
  case (Cons r rows)
  then have k: "set (dict_keys r) \<subseteq> set headers"
    and e: "\<forall>(k, v) \<in> set r. encodable k \<and> encodable (field_text v)" by auto
  from dict_to_list_ok [OF k] obtain vals where
    v: "dict_to_list headers (map (\<lambda>(k, v). (k, none_to_empty v)) r) = Inr vals"
       "map field_text vals = row_fields headers r" by blast
  have "\<forall>f \<in> set (row_fields headers r). encodable f"
    using cell_field_encodable [OF e] by (auto simp: row_fields_def)
  then have "\<not> list_ex is_surrogate (csv_line (row_fields headers r))"
    by (rule csv_line_encodable)
  then show ?case using v Cons by (simp add: Let_def)
qed

lemma write_csv_ok:
  assumes "rows \<noteq> []" "well_formed rows"
  shows "write_csv (dict_keys (hd rows)) rows =
           (BOM # csv_line (dict_keys (hd rows))
              @ concat (map (\<lambda>r. csv_line (row_fields (dict_keys (hd rows)) r)) rows), None)"
proof -
  have "hd rows \<in> set rows" using assms(1) by simp
  then have "\<forall>(k, v) \<in> set (hd rows). encodable k"
    using assms(2) by (fastforce simp: well_formed_def)
  then have "\<forall>f \<in> set (dict_keys (hd rows)). encodable f"
    by (auto simp: dict_keys_def)
  then have h: "\<not> list_ex is_surrogate (csv_line (dict_keys (hd rows)))"
    by (rule csv_line_encodable)
  have "write_rows (dict_keys (hd rows)) rows (BOM # csv_line (dict_keys (hd rows))) =
      ((BOM # csv_line (dict_keys (hd rows)))
          @ concat (map (\<lambda>r. csv_line (row_fields (dict_keys (hd rows)) r)) rows), None)"
    using assms(2) by (intro write_rows_ok) (simp add: well_formed_def)
  then show ?thesis using h by (simp add: write_csv_def Let_def)
qed

lemma read_export_lines: "read_export (BOM # concat (map csv_line recs)) = recs"
  by (simp add: read_export_def csv_reader_lines)

text \<open>
  Claim C6, amended. For every non-empty, well-formed result set and a path that can be
  opened, \<open>save_csv\<close> writes the marker, one record with the names of the columns of
  the first row in their order, then one record per row in row order, with \<open>None\<close>
  written as the empty field and every other cell as \<open>str\<close> of its value; reading the
  file back gives the same names in the same order and, row by row, these texts.
  (\<open>save_csv\<close> writes nothing for an empty result set: see the counterexample.)
\<close>

theorem export_round_trip:
  assumes "rows \<noteq> []" "well_formed rows"
    "prompt_with_default (default_name env) inputs = Inr (path, rest)" "can_open env path"
  shows "\<exists>content.
           save_csv env rows inputs w
             = ([Saved path], rest, w\<lparr>files := (files w)(path \<mapsto> content)\<rparr>, None)
         \<and> content = BOM # csv_line (dict_keys (hd rows))
              @ concat (map (\<lambda>r. csv_line (row_fields (dict_keys (hd rows)) r)) rows)
         \<and> read_export content
             = dict_keys (hd rows) # map (row_fields (dict_keys (hd rows))) rows"
proof -
  let ?hs = "dict_keys (hd rows)"
  let ?content = "BOM # csv_line ?hs @ concat (map (\<lambda>r. csv_line (row_fields ?hs r)) rows)"
  from assms(1) obtain r0 rs where rows: "rows = r0 # rs" by (cases rows) auto
  have "save_csv env rows inputs w
      = ([Saved path], rest, w\<lparr>files := (files w)(path \<mapsto> ?content)\<rparr>, None)"
    using write_csv_ok [OF assms(1,2)] assms(3,4) rows by (simp add: save_csv_def Let_def)
  moreover have "?content = BOM # concat (map csv_line (?hs # map (row_fields ?hs) rows))"
    by (simp add: comp_def)
  then have "read_export ?content = ?hs # map (row_fields ?hs) rows"
    using read_export_lines [of "?hs # map (row_fields ?hs) rows"] by simp
  ultimately show ?thesis by blast
qed

theorem export_round_trip_counterexample:
  "save_csv demo_env [] [py ''out.csv''] demo_world
     = ([NoDataToSave], [py ''out.csv''], demo_world, None)"
  by (simp add: save_csv_def)

text \<open>Two rows with an integer, a \<open>None\<close> and a text with a comma in it.\<close>

definition demo_export_rows :: "row list" where
  "demo_export_rows =
     [[(py ''id'', CInt 1), (py ''n'', CNone)],
      [(py ''id'', CInt (- 2)), (py ''n'', CStr (py ''x,y''))]]"

lemma demo_texts:
  "str_int 1 = [49]" "str_int (- 2) = [45, 50]"
  "py ''id'' = [105, 100]" "py ''n'' = [110]" "py ''x,y'' = [120, 44, 121]"
  "py ''out.csv'' = [111, 117, 116, 46, 99, 115, 118]"
  by (simp_all add: str_int_def digits_small py_def)

lemma demo_export_well_formed: "well_formed demo_export_rows"
  by (simp add: well_formed_def demo_export_rows_def dict_keys_def encodable_def field_text_def
      demo_texts is_surrogate_def)

lemma demo_prompt:
  "prompt_with_default (default_name demo_env) [py ''out.csv''] = Inr (py ''out.csv'', [])"
  by (simp add: prompt_with_default_def strip_def demo_texts is_space_def)

theorem export_round_trip_witness:
  "\<exists>content.
     save_csv demo_env demo_export_rows [py ''out.csv''] demo_world
       = ([Saved (py ''out.csv'')], [],
          demo_world\<lparr>files := (files demo_world)(py ''out.csv'' \<mapsto> content)\<rparr>, None)
   \<and> read_export content = [[py ''id'', py ''n''], [[49], []], [[45, 50], py ''x,y'']]"
proof -
  have ne: "demo_export_rows \<noteq> []" by (simp add: demo_export_rows_def)
  have op: "can_open demo_env (py ''out.csv'')" by (simp add: demo_env_def)
  from export_round_trip [OF ne demo_export_well_formed demo_prompt op, of demo_world]
  obtain content where
    c: "save_csv demo_env demo_export_rows [py ''out.csv''] demo_world
       = ([Saved (py ''out.csv'')], [],
          demo_world\<lparr>files := (files demo_world)(py ''out.csv'' \<mapsto> content)\<rparr>, None)"
    "read_export content = dict_keys (hd demo_export_rows)
       # map (row_fields (dict_keys (hd demo_export_rows))) demo_export_rows"
    by blast
  have "dict_keys (hd demo_export_rows)
       # map (row_fields (dict_keys (hd demo_export_rows))) demo_export_rows
     = [[py ''id'', py ''n''], [[49], []], [[45, 50], py ''x,y'']]"
    by (simp add: demo_export_rows_def dict_keys_def row_fields_def cell_field_def dict_get_def
        field_text_def demo_texts)
  with c show ?thesis by auto
qed


lemma save_csv_outcome:
  assumes "rows \<noteq> []" "prompt_with_default (default_name env) inputs = Inr (path, rest)"
  shows "save_csv env rows inputs w =
     (if \<not> can_open env path then ([SaveFailed OSError], rest, w, None)
      else (case snd (write_csv (dict_keys (hd rows)) rows) of
              None \<Rightarrow> [Saved path] | Some e \<Rightarrow> [SaveFailed e],
            rest,
            w\<lparr>files := (files w)(path \<mapsto> fst (write_csv (dict_keys (hd rows)) rows))\<rparr>, None))"
proof -
  from assms(1) obtain r0 rs where rows: "rows = r0 # rs" by (cases rows) auto
  obtain content e where wc: "write_csv (dict_keys r0) (r0 # rs) = (content, e)"
    by (cases "write_csv (dict_keys r0) (r0 # rs)")
  show ?thesis
    unfolding rows save_csv_def using assms(2) [unfolded rows] wc
    by (cases e) (simp_all add: Let_def)
qed


lemma save_step:
  assumes "show_page env rows P page = (ls, None)" "lower (strip l) = py ''s''"
     "save_csv env rows inputs w = (ls', rest, w', None)"
  shows "paginate_loop env rows P page (l # inputs) w
             = prepend (ls @ [PageMenu] @ ls') (paginate_loop env rows P page rest w')"
  apply (subst paginate_loop.simps)
  apply (simp only: assms prod.case option.case list.case Let_def)
  apply (simp add: py_n py_p py_s)
  done

text \<open>
  Claim C9. On the command \<open>s\<close>, \<open>paginate\<close> calls \<open>save_csv\<close> on \<open>rows\<close>, the
  whole result set: the file holds what \<open>write_csv\<close> gives for all rows (one record
  per row of the result set when it is well formed), not for the rows of the page on
  display. The loop then goes on with the same rows, page size and page; no
  statement is executed and no other file changes.
\<close>

theorem export_in_pagination:
  assumes "rows \<noteq> []" "show_page env rows P page = (ls, None)" "lower (strip l) = py ''s''"
    "prompt_with_default (default_name env) inputs = Inr (path, rest)"
  shows "\<exists>ls' w'.
           save_csv env rows inputs w = (ls', rest, w', None)
         \<and> paginate_loop env rows P page (l # inputs) w
             = prepend (ls @ [PageMenu] @ ls') (paginate_loop env rows P page rest w')
         \<and> executed w' = executed w
         \<and> (\<forall>p. p \<noteq> path \<longrightarrow> files w' p = files w p)
         \<and> (\<not> can_open env path \<longrightarrow> w' = w)
         \<and> (can_open env path \<longrightarrow>
               files w' path = Some (fst (write_csv (dict_keys (hd rows)) rows)))
         \<and> (can_open env path \<and> well_formed rows \<longrightarrow>
               files w' path = Some (BOM # csv_line (dict_keys (hd rows))
                 @ concat (map (\<lambda>r. csv_line (row_fields (dict_keys (hd rows)) r)) rows)))"
proof -
  define content where "content = fst (write_csv (dict_keys (hd rows)) rows)"
  define w' where "w' = (if can_open env path then w\<lparr>files := (files w)(path \<mapsto> content)\<rparr> else w)"
  define ls' where "ls' = (if \<not> can_open env path then [SaveFailed OSError]
     else case snd (write_csv (dict_keys (hd rows)) rows) of
            None \<Rightarrow> [Saved path] | Some err \<Rightarrow> [SaveFailed err])"
  have sv: "save_csv env rows inputs w = (ls', rest, w', None)"
    unfolding save_csv_outcome [OF assms(1,4)] by (simp add: w'_def ls'_def content_def)
  have loop: "paginate_loop env rows P page (l # inputs) w
             = prepend (ls @ [PageMenu] @ ls') (paginate_loop env rows P page rest w')"
    using assms(2,3) sv by (rule save_step)
  have ex: "executed w' = executed w" by (simp add: w'_def)
  have other: "\<forall>p. p \<noteq> path \<longrightarrow> files w' p = files w p" by (simp add: w'_def)
  have closed: "\<not> can_open env path \<longrightarrow> w' = w" by (simp add: w'_def)
  have whole: "can_open env path \<longrightarrow>
               files w' path = Some (fst (write_csv (dict_keys (hd rows)) rows))"
    by (simp add: w'_def content_def)
  have wellf: "can_open env path \<and> well_formed rows \<longrightarrow>
               files w' path = Some (BOM # csv_line (dict_keys (hd rows))
                 @ concat (map (\<lambda>r. csv_line (row_fields (dict_keys (hd rows)) r)) rows))"
    using write_csv_ok [OF assms(1)] by (simp add: w'_def content_def)
  show ?thesis
    by (intro exI [of _ ls'] exI [of _ w'] conjI) (fact sv loop ex other closed whole wellf)+
qed


lemma demo_rows_well_formed: "well_formed demo_rows"
  by (simp add: well_formed_def demo_rows_def dict_keys_def encodable_def field_text_def
      str_int_def digits_small demo_texts is_surrogate_def)

theorem export_in_pagination_witness:
  "\<exists>ls' w'.
     paginate_loop demo_env demo_rows 2 0 [py ''s'', py ''out.csv'', py ''Q''] demo_world
       = prepend ([ClearScreen, Showing 1 2 3, TableText [], PageMenu] @ ls')
           (paginate_loop demo_env demo_rows 2 0 [py ''Q''] w')
   \<and> executed w' = []
   \<and> files w' (py ''out.csv'')
       = Some ([BOM] @ py ''id'' @ [13, 10, 49, 13, 10, 50, 13, 10, 51, 13, 10])
   \<and> length (page_rows demo_rows 2 0) = 2"
proof -
  have ne: "demo_rows \<noteq> []" by (simp add: demo_rows_def)
  have r0: "page_rows demo_rows 2 0 \<noteq> []" "page_end demo_rows 2 0 = 2" "page_start 2 0 = 0"
    "length (page_rows demo_rows 2 0) = 2"
    by (simp_all add: page_rows_def page_start_def page_end_def demo_rows_def py_slice_def
        clip_index_def)
  have s0: "show_page demo_env demo_rows 2 0 = ([ClearScreen, Showing 1 2 3, TableText []], None)"
    using demo_show_page [of 0] r0 by simp
  have pr: "prompt_with_default (default_name demo_env) [py ''out.csv'', py ''Q'']
      = Inr (py ''out.csv'', [py ''Q''])"
    by (simp add: prompt_with_default_def strip_def demo_texts is_space_def)
  have op: "can_open demo_env (py ''out.csv'')" by (simp add: demo_env_def)
  from export_in_pagination [OF ne s0 cmd_simps(3) pr, of demo_world]
  obtain ls' w' where
    st: "paginate_loop demo_env demo_rows 2 0 (py ''s'' # [py ''out.csv'', py ''Q'']) demo_world
       = prepend ([ClearScreen, Showing 1 2 3, TableText []] @ [PageMenu] @ ls')
           (paginate_loop demo_env demo_rows 2 0 [py ''Q''] w')"
    and ex: "executed w' = executed demo_world"
    and fl: "can_open demo_env (py ''out.csv'') \<and> well_formed demo_rows \<longrightarrow>
       files w' (py ''out.csv'') = Some (BOM # csv_line (dict_keys (hd demo_rows))
         @ concat (map (\<lambda>r. csv_line (row_fields (dict_keys (hd demo_rows)) r)) demo_rows))"
    by blast
  have cont: "BOM # csv_line (dict_keys (hd demo_rows))
         @ concat (map (\<lambda>r. csv_line (row_fields (dict_keys (hd demo_rows)) r)) demo_rows)
       = [BOM] @ py ''id'' @ [13, 10, 49, 13, 10, 50, 13, 10, 51, 13, 10]"
    by (simp add: demo_rows_def dict_keys_def row_fields_def cell_field_def dict_get_def
        field_text_def str_int_def digits_small demo_texts csv_line_def csv_field_def
        csv_special_def)
  from fl op demo_rows_well_formed cont
  have "files w' (py ''out.csv'')
       = Some ([BOM] @ py ''id'' @ [13, 10, 49, 13, 10, 50, 13, 10, 51, 13, 10])"
    by simp
  moreover have "executed w' = []" using ex by (simp add: demo_world_def)
  ultimately show ?thesis using st r0(4) by auto
qed
section \<open>Properties of the render-failure handling\<close>

lemma print_horizontal_fallback:
  assumes "max_col_widths_list term (length headers) = Inr widths"
    "tabulate (cleaned_results results) headers widths = Inl e"
  shows "print_horizontal tabulate term results headers =
           ([TabulateError e, Degrading] @ fst (print_vertical results headers),
            snd (print_vertical results headers))"
  using assms by (simp add: print_horizontal_def split: prod.splits)

text \<open>
  Claim C7. In \<open>ob_gemini_v1\<close>, whenever the formatting backend raises during the
  horizontal rendering of a result set, \<open>print_horizontal\<close> prints the error and renders
  the same results and the same headers with \<open>print_vertical\<close>; \<open>execute_and_print_query\<close>,
  which took the horizontal layout, returns to the menu loop with that output, and an
  exception of the vertical rendering is reported there and not raised.
\<close>

theorem render_failure_fallback:
  assumes "max_col_widths_list term (length headers) = Inr widths"
    "tabulate (cleaned_results results) headers widths = Inl e"
    "layout_decision headers results = Horizontal"
  shows "print_horizontal tabulate term results headers =
           ([TabulateError e, Degrading] @ fst (print_vertical results headers),
            snd (print_vertical results headers))
       \<and> present tabulate term headers results =
           [TabulateError e, Degrading] @ finish (print_vertical results headers)
       \<and> (\<forall>conn sql cur.
             strip sql \<noteq> [] \<and> conn sql = Inr cur \<and> description cur = Some headers
             \<and> fetched cur = results \<and> results \<noteq> [] \<longrightarrow>
             execute_and_print_query tabulate term conn sql =
               Executing sql # [TabulateError e, Degrading]
                 @ finish (print_vertical results headers))"
proof -
  have a: "print_horizontal tabulate term results headers =
           ([TabulateError e, Degrading] @ fst (print_vertical results headers),
            snd (print_vertical results headers))"
    using assms(1,2) by (rule print_horizontal_fallback)
  have "present tabulate term headers results =
      finish (print_horizontal tabulate term results headers)"
    using assms(3) by (simp add: present_def layout_decision_def Let_def split: if_splits)
  then have b: "present tabulate term headers results =
           [TabulateError e, Degrading] @ finish (print_vertical results headers)"
    unfolding a by (cases "print_vertical results headers") (auto simp: finish_def split: option.splits)
  have h: "headers \<noteq> []"
    using assms(1) by (auto simp: max_col_widths_list_def max_col_width_def)
  have c: "\<forall>conn sql cur.
             strip sql \<noteq> [] \<and> conn sql = Inr cur \<and> description cur = Some headers
             \<and> fetched cur = results \<and> results \<noteq> [] \<longrightarrow>
             execute_and_print_query tabulate term conn sql =
               Executing sql # [TabulateError e, Degrading]
                 @ finish (print_vertical results headers)"
  proof (intro allI impI)
    fix conn :: "pystr \<Rightarrow> py_error + cursor_result" and sql cur
    assume q: "strip sql \<noteq> [] \<and> conn sql = Inr cur \<and> description cur = Some headers
             \<and> fetched cur = results \<and> results \<noteq> []"
    then have "sql \<noteq> []" by (auto simp: strip_def)
    then show "execute_and_print_query tabulate term conn sql =
               Executing sql # [TabulateError e, Degrading]
                 @ finish (print_vertical results headers)"
      using q h b by (simp add: execute_and_print_query_def)
  qed
  from a b c show ?thesis by blast
qed

text \<open>
  A backend that always raises, and a connection whose cursor holds one row of one
  column.
\<close>

definition failing_grid :: tabulate_grid where
  "failing_grid rs hs ws = Inl (OtherError (py ''boom''))"

definition one_row_conn :: "pystr \<Rightarrow> py_error + cursor_result" where
  "one_row_conn sql = Inr \<lparr>description = Some [py ''id''], fetched = [[CInt 1]], rowcount = 1\<rparr>"

lemma vertical_one:
  "print_vertical [[CInt 1]] [py ''id'']
     = ([Line [], RowBanner 1, Line (py ''id : 1''), RowsReturned 1], None)"
  by (simp add: print_vertical_def max_header_len_def rjust_def py_def str_int_def digits_small)

lemma strip_select_1: "strip (py ''select 1'') \<noteq> []"
  by (simp add: strip_def py_def is_space_def)

theorem render_failure_fallback_witness:
  "print_horizontal failing_grid (Some 80) [[CInt 1]] [py ''id'']
     = ([TabulateError (OtherError (py ''boom'')), Degrading,
         Line [], RowBanner 1, Line (py ''id : 1''), RowsReturned 1], None)
   \<and> present failing_grid (Some 80) [py ''id''] [[CInt 1]]
     = [TabulateError (OtherError (py ''boom'')), Degrading,
        Line [], RowBanner 1, Line (py ''id : 1''), RowsReturned 1]
   \<and> execute_and_print_query failing_grid (Some 80) one_row_conn (py ''select 1'')
     = [Executing (py ''select 1''), TabulateError (OtherError (py ''boom'')), Degrading,
        Line [], RowBanner 1, Line (py ''id : 1''), RowsReturned 1]"
proof -
  have w: "max_col_widths_list (Some 80) (length [py ''id'']) = Inr [40]"
    by (simp add: max_col_widths_list_def max_col_width_def)
  have t: "failing_grid (cleaned_results [[CInt 1]]) [py ''id''] [40] = Inl (OtherError (py ''boom''))"
    by (simp add: failing_grid_def)
  have l: "layout_decision [py ''id''] [[CInt 1]] = Horizontal"
    by (simp add: layout_decision_def has_newlines_def is_too_wide_def MAX_HORIZONTAL_COLS_def)
  note inst = render_failure_fallback [of "Some 80" "[py ''id'']" "[40]" failing_grid "[[CInt 1]]"
      "OtherError (py ''boom'')"]
  note th = inst [OF w t l]
  have c: "strip (py ''select 1'') \<noteq> []
      \<and> one_row_conn (py ''select 1'')
          = Inr \<lparr>description = Some [py ''id''], fetched = [[CInt 1]], rowcount = 1\<rparr>
      \<and> description \<lparr>description = Some [py ''id''], fetched = [[CInt 1]], rowcount = 1\<rparr>
          = Some [py ''id'']
      \<and> fetched \<lparr>description = Some [py ''id''], fetched = [[CInt 1]], rowcount = 1\<rparr>
          = [[CInt 1]]
      \<and> [[CInt 1]] \<noteq> ([] :: cell list list)"
    by (simp add: strip_select_1 one_row_conn_def)
  from th have one: "print_horizontal failing_grid (Some 80) [[CInt 1]] [py ''id'']
     = ([TabulateError (OtherError (py ''boom'')), Degrading,
         Line [], RowBanner 1, Line (py ''id : 1''), RowsReturned 1], None)"
    by (simp add: vertical_one)
  from th have two: "present failing_grid (Some 80) [py ''id''] [[CInt 1]]
     = [TabulateError (OtherError (py ''boom'')), Degrading,
        Line [], RowBanner 1, Line (py ''id : 1''), RowsReturned 1]"
    by (simp add: vertical_one finish_def)
  from th have "execute_and_print_query failing_grid (Some 80) one_row_conn (py ''select 1'') =
      Executing (py ''select 1'') # [TabulateError (OtherError (py ''boom'')), Degrading]
        @ finish (print_vertical [[CInt 1]] [py ''id''])"
    using c by blast
  then have three: "execute_and_print_query failing_grid (Some 80) one_row_conn (py ''select 1'')
     = [Executing (py ''select 1''), TabulateError (OtherError (py ''boom'')), Degrading,
        Line [], RowBanner 1, Line (py ''id : 1''), RowsReturned 1]"
    by (simp add: vertical_one finish_def)
  from one two three show ?thesis by blast
qed

text \<open>
  \<open>ob_admin_cli\<close> has no vertical view and no handler around its backend call: when the
  backend raises, \<open>print_table\<close> and \<open>paginate\<close> are left by the exception, which the
  handler of \<open>main\<close> reports.
\<close>

lemma page_rows_first:
  assumes "rows \<noteq> []" "1 \<le> P"
  shows "page_rows rows P 0 \<noteq> []"
proof -
  have "page_inv rows P 0" using assms(1) by (rule page_inv_0)
  from page_rows_length [OF assms(2) this]
  have "int (length (page_rows rows P 0)) = min P (int (length rows))"
    by (simp add: page_end_def page_start_def)
  moreover have "0 < min P (int (length rows))" using assms by (cases rows) auto
  ultimately have "0 < length (page_rows rows P 0)" by linarith
  then show ?thesis by auto
qed

lemma print_table_backend_error:
  assumes "rows \<noteq> []" "have_tabulate env = Some tab" "\<forall>ll hs. tab ll hs = Inl e"
  shows "print_table env rows mw = ([], Some e)"
  using assms by (cases rows) (simp_all add: print_table_def Let_def)

lemma paginate_backend_error:
  assumes "rows \<noteq> []" "1 \<le> P" "have_tabulate env = Some tab" "\<forall>ll hs. tab ll hs = Inl e"
  shows "paginate env rows P inputs w =
           ([ClearScreen, Showing 1 (page_end rows P 0) (length rows)], inputs, w, Some e)"
proof -
  have "print_table env (page_rows rows P 0) None = ([], Some e)"
    using page_rows_first [OF assms(1,2)] assms(3,4) by (rule print_table_backend_error)
  then have "show_page env rows P 0 =
      ([ClearScreen, Showing 1 (page_end rows P 0) (length rows)], Some e)"
    by (simp add: show_page_def page_start_def)
  then show ?thesis using assms(1)
    by (simp add: paginate_def) (subst paginate_loop.simps, simp)
qed
section \<open>Properties of the dangerous-statement gate\<close>

text \<open>
  What the specification asks the gate to look for: one of the six keywords as a whole
  word of the lowercased statement, that is with no letter, digit or underscore next to
  it on either side.
\<close>

definition word_char :: "nat \<Rightarrow> bool" where
  "word_char c \<longleftrightarrow> (48 \<le> c \<and> c \<le> 57) \<or> (65 \<le> c \<and> c \<le> 90) \<or> (97 \<le> c \<and> c \<le> 122) \<or> c = 95"

fun has_word :: "pystr \<Rightarrow> nat option \<Rightarrow> pystr \<Rightarrow> bool" where
  "has_word kw prev [] = False"
| "has_word kw prev (c # cs) =
     ((take (length kw) (c # cs) = kw
       \<and> (case prev of None \<Rightarrow> True | Some p \<Rightarrow> \<not> word_char p)
       \<and> (case drop (length kw) (c # cs) of [] \<Rightarrow> True | n # _ \<Rightarrow> \<not> word_char n))
      \<or> has_word kw (Some c) cs)"

definition KEYWORDS :: "pystr list" where
  "KEYWORDS = [py ''drop'', py ''truncate'', py ''delete'', py ''alter'', py ''shutdown'', py ''kill'']"

definition mentions_keyword :: "pystr \<Rightarrow> bool" where
  "mentions_keyword sql = list_ex (\<lambda>kw. has_word kw None (lower sql)) KEYWORDS"

text \<open>
  A statement as the custom prompt of \<open>main\<close> builds it from two lines typed by the user,
  \<open>-- cleanup\<close> and \<open>delete from t;\<close>, joined by a line feed.
\<close>

definition two_line_delete :: pystr where
  "two_line_delete = py ''-- cleanup'' @ [10] @ py ''delete from t;''"

text \<open>
  When the gate fires, it does what the specification says: any answer but \<open>yes\<close>
  (after \<open>strip\<close> and \<open>lower\<close>) cancels with the world unchanged, and \<open>yes\<close> executes.
\<close>

lemma danger_gate_cancels:
  assumes "is_dangerous sql" "lower (strip l) \<noteq> py ''yes''"
  shows "dispatch env conn sql (l # rest) w = ([Cancelled], rest, w, None)"
  using assms by (simp add: dispatch_def Let_def)

lemma danger_gate_confirms:
  assumes "is_dangerous sql" "lower (strip l) = py ''yes''"
  shows "dispatch env conn sql (l # rest) w = execute env conn sql rest w"
  using assms by (simp add: dispatch_def Let_def)

lemma danger_gate_passes:
  assumes "\<not> is_dangerous sql"
  shows "dispatch env conn sql inputs w = execute env conn sql inputs w"
  using assms by (simp add: dispatch_def)

lemma two_line_delete_text:
  "two_line_delete = [45, 45, 32, 99, 108, 101, 97, 110, 117, 112, 10, 100, 101, 108, 101,
    116, 101, 32, 102, 114, 111, 109, 32, 116, 59]"
  by (simp add: two_line_delete_def py_def)

lemma two_line_delete_lower: "lower two_line_delete = two_line_delete"
  by (simp add: two_line_delete_text lower_def lower_char_def)

lemma two_line_delete_not_dangerous: "\<not> is_dangerous two_line_delete"
  by (simp add: is_dangerous_def two_line_delete_lower Let_def DANGER_def,
      simp add: two_line_delete_text py_def)

lemma two_line_delete_mentions: "mentions_keyword two_line_delete"
  by (simp add: mentions_keyword_def two_line_delete_lower KEYWORDS_def,
      simp add: two_line_delete_text py_def word_char_def)

text \<open>
  Claim C1. The gate pads the lowercased statement with a space at each end and looks
  for the keywords with a space on each side, so a keyword next to a line feed, a tab
  or punctuation is not seen. The two-line statement above holds \<open>delete\<close> as a whole
  word; \<open>is_dangerous\<close> is false for it, no confirmation is read, and the statement is
  executed.
\<close>

theorem danger_gate_misses_newline:
  "mentions_keyword two_line_delete
   \<and> \<not> is_dangerous two_line_delete
   \<and> dispatch demo_env demo_conn two_line_delete [py ''q''] demo_world
       = ([Timing 25, ClearScreen, Showing 1 1 1, TableText [], PageMenu], [],
          demo_world\<lparr>executed := [two_line_delete]\<rparr>, None)"
proof -
  let ?row = "[(py ''affected_rows'', CInt 3)]"
  have rq: "run_query demo_conn two_line_delete demo_world
      = ([Timing 25], demo_world\<lparr>executed := [two_line_delete]\<rparr>, Inr [?row])"
    by (simp add: run_query_def demo_conn_def demo_world_def Let_def)
      (simp add: two_line_delete_text)
  have pr: "page_rows [?row] 20 0 = [?row]" "page_end [?row] 20 0 = 1" "page_start 20 0 = 0"
    by (simp_all add: page_rows_def page_start_def page_end_def py_slice_def clip_index_def)
  have sp: "show_page demo_env [?row] 20 0 = ([ClearScreen, Showing 1 1 1, TableText []], None)"
    by (simp add: show_page_def pr print_table_def demo_env_def Let_def)
  have q: "lower (strip [113]) = [113]"
    by (simp add: strip_def lower_def lower_char_def is_space_def)
  have pg: "paginate demo_env [?row] 20 [py ''q''] w
      = ([ClearScreen, Showing 1 1 1, TableText [], PageMenu], [], w, None)" for w
    by (simp add: paginate_def) (subst paginate_loop.simps, simp add: sp q py_n py_p py_s py_q)
  have "dispatch demo_env demo_conn two_line_delete [py ''q''] demo_world
       = ([Timing 25, ClearScreen, Showing 1 1 1, TableText [], PageMenu], [],
          demo_world\<lparr>executed := [two_line_delete]\<rparr>, None)"
    by (simp add: danger_gate_passes [OF two_line_delete_not_dangerous] execute_def rq pg)
  then show ?thesis using two_line_delete_mentions two_line_delete_not_dangerous by simp
qed

lemma delete_from_t_dangerous: "is_dangerous (py ''DELETE FROM t'')"
  by (simp add: is_dangerous_def Let_def DANGER_def lower_def lower_char_def py_def)

lemma scenario_C:
  "dispatch demo_env demo_conn (py ''DELETE FROM t'') [py ''no''] demo_world
     = ([Cancelled], [], demo_world, None)"
  by (rule danger_gate_cancels [OF delete_from_t_dangerous])
    (simp add: py_def strip_def lower_def lower_char_def is_space_def)

end
